theory Spec2Isabelle
  imports Complex_Main "HOL-Library.Word"
begin

section \<open>Machine model\<close>

text \<open>
  The source is C (fft_mixed_radix.c of liquid-dsp). \<^verbatim>\<open>unsigned int\<close> is a 32-bit
  word, so every index expression of the source wraps modulo \<open>2 ^ 32\<close> in the model
  exactly as it does in C. A pointer to \<^verbatim>\<open>TC\<close> is the index of a complex cell in one
  flat store; \<open>p[i]\<close> is the cell \<open>p + unat i\<close>, whatever block it falls in, so
  overlapping buffers behave as they do in C. A value of type \<^verbatim>\<open>TC\<close> is a complex
  number and one of type \<^verbatim>\<open>T\<close> a real number; the arithmetic that produces the twiddle
  table is a parameter (see the environment below), the executor's is exact.
\<close>

type_synonym uint = "32 word"
type_synonym addr = nat
type_synonym store = "addr \<Rightarrow> complex"

text \<open>\<^verbatim>\<open>for (i = i0; i < n; i++) body\<close> over an \<^verbatim>\<open>unsigned int\<close> counter.\<close>

function for_loop :: "uint \<Rightarrow> uint \<Rightarrow> (uint \<Rightarrow> 'a \<Rightarrow> 'a) \<Rightarrow> 'a \<Rightarrow> 'a" where
  "for_loop i n body s = (if i < n then for_loop (i + 1) n body (body i s) else s)"
  by pat_completeness auto
termination
proof (relation "measure (\<lambda>(i, n, body, s). unat n - unat i)")
  show "wf (measure (\<lambda>(i, n, body, s). unat n - unat i))" by simp
next
  fix i n :: uint and body :: "uint \<Rightarrow> 'a \<Rightarrow> 'a" and s :: 'a
  assume "i < n"
  then have lt: "unat i < unat n" by (simp add: word_less_nat_alt)
  moreover have "unat n < 2 ^ 32" using unsigned_less [of n] by simp
  ultimately have "unat i + unat (1::uint) < 2 ^ LENGTH(32)" by simp
  then have "unat (i + 1) = unat i + unat (1::uint)" by (simp only: unat_add_lem)
  with lt show "((i + 1, n, body, body i s), (i, n, body, s))
        \<in> measure (\<lambda>(i, n, body, s). unat n - unat i)" by simp
qed

declare for_loop.simps [simp del]

text \<open>
  The factor search of the builder (lines 61 to 68): \<^verbatim>\<open>Q\<close> starts at 0 and the loop
  \<^verbatim>\<open>for (i=2; i<nfft; i++) if ((nfft % i)==0) { Q = i; break; }\<close> leaves in it the first
  \<open>i\<close> that divides, or 0 when the loop runs out.
\<close>

function find_first_factor :: "uint \<Rightarrow> uint \<Rightarrow> uint" where
  "find_first_factor n i =
     (if i < n then (if n mod i = 0 then i else find_first_factor n (i + 1)) else 0)"
  by pat_completeness auto
termination
proof (relation "measure (\<lambda>(n, i). unat n - unat i)")
  show "wf (measure (\<lambda>(n, i). unat n - unat i))" by simp
next
  fix n i :: uint
  assume "i < n"
  then have lt: "unat i < unat n" by (simp add: word_less_nat_alt)
  moreover have "unat n < 2 ^ 32" using unsigned_less [of n] by simp
  ultimately have "unat i + unat (1::uint) < 2 ^ LENGTH(32)" by simp
  then have "unat (i + 1) = unat i + unat (1::uint)" by (simp only: unat_add_lem)
  with lt show "((n, i + 1), (n, i)) \<in> measure (\<lambda>(n, i). unat n - unat i)" by simp
qed

declare find_first_factor.simps [simp del]

section \<open>The heap\<close>

text \<open>
  \<^verbatim>\<open>malloc\<close> is the C library's. It is modelled as an allocator that never fails and
  hands out fresh cells: a block of \<open>n\<close> complex cells starts at \<open>brk\<close> and moves
  \<open>brk\<close> past it. Sizes are counted in cells; the byte counts \<^verbatim>\<open>n * sizeof(TC)\<close> of the
  source are computed in \<^verbatim>\<open>size_t\<close>, taken to be wide enough for them. \<open>live\<close> lists the blocks that have been allocated and not freed,
  newest first; the plan record and the table of sub-plan pointers hold no complex
  cells and are blocks of their own kinds.
\<close>

datatype block = Plan_struct | Subplan_table nat | TC_array addr nat

record heap =
  cells :: store
  brk :: addr
  live :: "block list"

definition malloc_struct :: "block \<Rightarrow> heap \<Rightarrow> heap" where
  "malloc_struct b h = h\<lparr>live := b # live h\<rparr>"

definition malloc_TC :: "nat \<Rightarrow> heap \<Rightarrow> addr \<times> heap" where
  "malloc_TC n h = (brk h, h\<lparr>brk := brk h + n, live := TC_array (brk h) n # live h\<rparr>)"

text \<open>
  \<^verbatim>\<open>free\<close> takes a block off the live list: the newest block of the given kind, or the
  newest complex array that starts at the given cell. The cells are not reused.
\<close>

definition free_struct :: "block \<Rightarrow> heap \<Rightarrow> heap" where
  "free_struct b h = h\<lparr>live := remove1 b (live h)\<rparr>"

fun drop_TC :: "addr \<Rightarrow> block list \<Rightarrow> block list" where
  "drop_TC p [] = []"
| "drop_TC p (TC_array p' n # bs) = (if p' = p then bs else TC_array p' n # drop_TC p bs)"
| "drop_TC p (b # bs) = b # drop_TC p bs"

definition free_TC :: "addr \<Rightarrow> heap \<Rightarrow> heap" where
  "free_TC p h = h\<lparr>live := drop_TC p (live h)\<rparr>"

section \<open>Plans and their environment\<close>

text \<open>
  What the file uses and does not define is a parameter: the two direction constants
  \<^verbatim>\<open>FFT_FORWARD\<close> and \<^verbatim>\<open>FFT_REVERSE\<close> of the library header, the plan factory
  \<^verbatim>\<open>FFT(_create_plan)\<close> that builds a sub-plan of any kind (type \<open>'sp\<close>) on the heap, the
  dispatcher \<^verbatim>\<open>FFT(_execute)\<close> that runs one on the store, and \<^verbatim>\<open>FFT(_destroy_plan)\<close> that
  releases one.

  So is the floating-point side of line 111, where the builder computes the twiddle
  table. The types \<^verbatim>\<open>T\<close> and \<^verbatim>\<open>TC\<close> are macros of a header that is not among the sources,
  \<^verbatim>\<open>M_PI\<close> is the constant of \<^verbatim>\<open>math.h\<close> and \<^verbatim>\<open>cexpf\<close> is the C library's. A value of a
  floating type is the real or complex number it stands for. Which number the
  conversion \<^verbatim>\<open>(T)i\<close> returns is given by \<open>cast_T\<close>, the value of \<^verbatim>\<open>M_PI\<close> by \<open>M_PI\<close>, and
  what \<^verbatim>\<open>cexpf\<close> returns for an argument, the conversion of the argument to its parameter
  type included, by \<open>cexpf\<close>. The four products and the quotient of the line are taken
  in the types that the usual arithmetic conversions give their operands, which differ
  from one operation to the next; each has a function of its own, named after its
  right operand: \<open>mul_d\<close>, \<open>mul_2\<close>, \<open>mul_M_PI\<close>, \<open>mul_i\<close> and \<open>div_nfft\<close>. The cell of the
  table keeps the value that \<^verbatim>\<open>cexpf\<close> returns. The executor's one product (line 169) is
  the exact one throughout: what is stated of the executor is stated over exact
  complex arithmetic.
\<close>

record 'sp fft_env =
  FFT_FORWARD :: int
  FFT_REVERSE :: int
  fft_create_plan :: "uint \<Rightarrow> addr \<Rightarrow> addr \<Rightarrow> int \<Rightarrow> int \<Rightarrow> heap \<Rightarrow> 'sp \<times> heap"
  fft_execute :: "'sp \<Rightarrow> store \<Rightarrow> store"
  fft_destroy_plan :: "'sp \<Rightarrow> heap \<Rightarrow> heap"
  M_PI :: real
  cast_T :: "uint \<Rightarrow> real"
  mul_d :: "complex \<Rightarrow> complex \<Rightarrow> complex"
  mul_2 :: "complex \<Rightarrow> complex \<Rightarrow> complex"
  mul_M_PI :: "complex \<Rightarrow> complex \<Rightarrow> complex"
  mul_i :: "complex \<Rightarrow> complex \<Rightarrow> complex"
  div_nfft :: "complex \<Rightarrow> complex \<Rightarrow> complex"
  cexpf :: "complex \<Rightarrow> complex"

datatype fft_kind = LIQUID_FFT_DFT_1D
datatype fft_method = LIQUID_FFT_METHOD_MIXED_RADIX

text \<open>
  \<^verbatim>\<open>struct FFT(plan_s)\<close>, the fields this file sets: \<open>buf_x\<close>, \<open>buf_y\<close> are \<^verbatim>\<open>x\<close>, \<^verbatim>\<open>y\<close>;
  \<open>mr_P\<close>, \<open>mr_Q\<close>, \<open>mr_t0\<close>, \<open>mr_t1\<close>, \<open>mr_x\<close> are the members of \<^verbatim>\<open>data.mixedradix\<close>.
  The \<^verbatim>\<open>execute\<close> function pointer is always \<^verbatim>\<open>FFT(_execute_mixed_radix)\<close> and is left out.
\<close>

record 'sp fft_plan =
  nfft :: uint
  buf_x :: addr
  buf_y :: addr
  flags :: int
  plan_kind :: fft_kind
  direction :: int
  plan_method :: fft_method
  mr_P :: uint
  mr_Q :: uint
  mr_t0 :: addr
  mr_t1 :: addr
  mr_x :: addr
  num_subplans :: uint
  subplans :: "'sp list"
  twiddle :: addr

text \<open>\<^verbatim>\<open>exit(1)\<close> after the message "_nfft=%u is prime" is the only way the builder fails.\<close>

datatype fft_error = Exit_prime uint

text \<open>
  \<^verbatim>\<open>exit\<close> does not return: the process ends with the status it is given, and the
  statements that follow the call in the caller are not executed. So the code after a
  call is a continuation of the value the call returns, and \<open>and_then\<close> runs it, or
  does not.
\<close>

definition exit_status :: "fft_error \<Rightarrow> int" where
  "exit_status e = (case e of Exit_prime n \<Rightarrow> 1)"

definition and_then ::
  "(fft_error \<times> heap) + 'a \<Rightarrow> ('a \<Rightarrow> (fft_error \<times> heap) + 'b) \<Rightarrow> (fft_error \<times> heap) + 'b" where
  "and_then r k = (case r of Inl e \<Rightarrow> Inl e | Inr v \<Rightarrow> k v)"

section \<open>The builder\<close>

text \<open>
  The right-hand side of line 111, \<^verbatim>\<open>cexpf(_Complex_I*d*2*M_PI*(T)i / (T)(q->nfft))\<close>, in
  the arithmetic of the environment; \<^verbatim>\<open>*\<close> and \<^verbatim>\<open>/\<close> associate to the left.
\<close>

definition twiddle_value :: "'sp fft_env \<Rightarrow> real \<Rightarrow> uint \<Rightarrow> uint \<Rightarrow> complex" where
  "twiddle_value env d i n =
     cexpf env
       (div_nfft env
          (mul_i env
             (mul_M_PI env
                (mul_2 env (mul_d env \<i> (complex_of_real d)) 2)
                (complex_of_real (M_PI env)))
             (complex_of_real (cast_T env i)))
          (complex_of_real (cast_T env n)))"

text \<open>
  \<^verbatim>\<open>FFT(_create_plan_mixed_radix)\<close>, statement by statement. The left summand is the
  end of the process in \<^verbatim>\<open>exit(1)\<close> (lines 69 to 72), with the heap as it is at that
  point; the right summand is the return of the plan.
\<close>

definition create_plan_mixed_radix ::
  "'sp fft_env \<Rightarrow> uint \<Rightarrow> addr \<Rightarrow> addr \<Rightarrow> int \<Rightarrow> int \<Rightarrow> heap
     \<Rightarrow> (fft_error \<times> heap) + ('sp fft_plan \<times> heap)" where
  "create_plan_mixed_radix env nfft' x' y' dir' flags' h =
    (let h1 = malloc_struct Plan_struct h;
         dir = (if dir' = FFT_FORWARD env then FFT_FORWARD env else FFT_REVERSE env);
         Q = find_first_factor nfft' 2
     in if Q = 0 then Inl (Exit_prime nfft', h1)
        else
          let P = nfft' div Q;
              t_len = (if Q > P then Q else P);
              (t0, h2) = malloc_TC (unat t_len) h1;
              (t1, h3) = malloc_TC (unat t_len) h2;
              (x, h4) = malloc_TC (unat nfft') h3;
              h5 = malloc_struct (Subplan_table 2) h4;
              (sp0, h6) = fft_create_plan env P t0 t1 dir flags' h5;
              (sp1, h7) = fft_create_plan env Q t0 t1 dir flags' h6;
              (tw, h8) = malloc_TC (unat nfft') h7;
              d = (if dir = FFT_FORWARD env then - 1 else 1 :: real);
              h9 = h8\<lparr>cells := for_loop 0 nfft'
                     (\<lambda>i c. c(tw + unat i := twiddle_value env d i nfft'))
                     (cells h8)\<rparr>
          in Inr (\<lparr>nfft = nfft', buf_x = x', buf_y = y', flags = flags',
                   plan_kind = LIQUID_FFT_DFT_1D, direction = dir,
                   plan_method = LIQUID_FFT_METHOD_MIXED_RADIX,
                   mr_P = P, mr_Q = Q, mr_t0 = t0, mr_t1 = t1, mr_x = x,
                   num_subplans = 2, subplans = [sp0, sp1], twiddle = tw\<rparr>, h9))"

text \<open>\<^verbatim>\<open>FFT(_destroy_plan_mixed_radix)\<close>, statement by statement (lines 117 to 134).\<close>

definition destroy_plan_mixed_radix :: "'sp fft_env \<Rightarrow> 'sp fft_plan \<Rightarrow> heap \<Rightarrow> heap" where
  "destroy_plan_mixed_radix env q h =
    (let h1 = fft_destroy_plan env (subplans q ! 0) h;
         h2 = fft_destroy_plan env (subplans q ! 1) h1;
         h3 = free_struct (Subplan_table (unat (num_subplans q))) h2;
         h4 = free_TC (mr_t0 q) h3;
         h5 = free_TC (mr_t1 q) h4;
         h6 = free_TC (mr_x q) h5;
         h7 = free_TC (twiddle q) h6
     in free_struct Plan_struct h7)"

section \<open>The executor\<close>

text \<open>
  \<^verbatim>\<open>memmove(dst, src, n*sizeof(TC))\<close> of the C library: the \<open>n\<close> cells at \<open>src\<close>, as they
  are before the call, land at \<open>dst\<close>, also when the two blocks overlap.
\<close>

definition memmove :: "addr \<Rightarrow> addr \<Rightarrow> nat \<Rightarrow> store \<Rightarrow> store" where
  "memmove dst src n s = (\<lambda>a. if dst \<le> a \<and> a < dst + n then s (src + (a - dst)) else s a)"

text \<open>
  The four index expressions of \<^verbatim>\<open>FFT(_execute_mixed_radix)\<close>, computed in
  \<^verbatim>\<open>unsigned int\<close>: \<^verbatim>\<open>Q*k+i\<close> (lines 162 and 169), \<^verbatim>\<open>i*k\<close> (line 169), \<^verbatim>\<open>Q*i+k\<close>
  (line 185) and \<^verbatim>\<open>k*P+i\<close> (line 192).
\<close>

definition decimate_index :: "uint \<Rightarrow> uint \<Rightarrow> uint \<Rightarrow> uint" where
  "decimate_index Q i k = Q * k + i"

definition twiddle_index :: "uint \<Rightarrow> uint \<Rightarrow> uint" where
  "twiddle_index i k = i * k"

definition column_index :: "uint \<Rightarrow> uint \<Rightarrow> uint \<Rightarrow> uint" where
  "column_index Q i k = Q * i + k"

definition transpose_index :: "uint \<Rightarrow> uint \<Rightarrow> uint \<Rightarrow> uint" where
  "transpose_index P i k = k * P + i"

text \<open>The bodies of the four inner loops, one assignment each.\<close>

definition pass1_gather :: "'sp fft_plan \<Rightarrow> uint \<Rightarrow> uint \<Rightarrow> store \<Rightarrow> store" where
  "pass1_gather q i k s =
     s(mr_t0 q + unat k := s (mr_x q + unat (decimate_index (mr_Q q) i k)))"

definition pass1_scatter :: "'sp fft_plan \<Rightarrow> uint \<Rightarrow> uint \<Rightarrow> store \<Rightarrow> store" where
  "pass1_scatter q i k s =
     s(mr_x q + unat (decimate_index (mr_Q q) i k) :=
         s (mr_t1 q + unat k) * s (twiddle q + unat (twiddle_index i k)))"

definition pass2_gather :: "'sp fft_plan \<Rightarrow> uint \<Rightarrow> uint \<Rightarrow> store \<Rightarrow> store" where
  "pass2_gather q i k s =
     s(mr_t0 q + unat k := s (mr_x q + unat (column_index (mr_Q q) i k)))"

definition pass2_transpose :: "'sp fft_plan \<Rightarrow> uint \<Rightarrow> uint \<Rightarrow> store \<Rightarrow> store" where
  "pass2_transpose q i k s =
     s(buf_y q + unat (transpose_index (mr_P q) i k) := s (mr_t1 q + unat k))"

text \<open>
  One turn of the first outer loop (lines 159 to 176) and one of the second (lines 182
  to 199); \<^verbatim>\<open>subplans[0]\<close> is the P-point sub-plan, \<^verbatim>\<open>subplans[1]\<close> the Q-point one.
\<close>

definition pass1_body :: "'sp fft_env \<Rightarrow> 'sp fft_plan \<Rightarrow> uint \<Rightarrow> store \<Rightarrow> store" where
  "pass1_body env q i s =
     (let sa = for_loop 0 (mr_P q) (pass1_gather q i) s;
          sb = fft_execute env (subplans q ! 0) sa
      in for_loop 0 (mr_P q) (pass1_scatter q i) sb)"

definition pass2_body :: "'sp fft_env \<Rightarrow> 'sp fft_plan \<Rightarrow> uint \<Rightarrow> store \<Rightarrow> store" where
  "pass2_body env q i s =
     (let sa = for_loop 0 (mr_Q q) (pass2_gather q i) s;
          sb = fft_execute env (subplans q ! 1) sa
      in for_loop 0 (mr_Q q) (pass2_transpose q i) sb)"

text \<open>\<^verbatim>\<open>FFT(_execute_mixed_radix)\<close>: the copy of the input, then the two passes.\<close>

definition execute_mixed_radix :: "'sp fft_env \<Rightarrow> 'sp fft_plan \<Rightarrow> store \<Rightarrow> store" where
  "execute_mixed_radix env q s =
     (let s1 = memmove (mr_x q) (buf_x q) (unat (nfft q)) s;
          s2 = for_loop 0 (mr_Q q) (pass1_body env q) s1
      in for_loop 0 (mr_P q) (pass2_body env q) s2)"

text \<open>
  The offsets into \<^verbatim>\<open>y\<close> that the second pass writes, in the order the two nested
  loops (lines 182 and 191) write them: the same loops, run on a list that records
  each offset instead of on the store.
\<close>

definition pass2_write_trace :: "'sp fft_plan \<Rightarrow> nat list" where
  "pass2_write_trace q =
     for_loop 0 (mr_P q)
       (\<lambda>i. for_loop 0 (mr_Q q) (\<lambda>k tr. tr @ [unat (transpose_index (mr_P q) i k)])) []"

text \<open>
  The executor with a record of the cells its line 192 assigns. A step of the logged
  run is the step of the executor itself, on the store, together with the address that
  step assigns, appended to the log; the loops, the gathering and the call of the
  sub-plan are those of \<open>pass2_body\<close> and \<open>execute_mixed_radix\<close>.
\<close>

definition pass2_transpose_logged ::
  "'sp fft_plan \<Rightarrow> uint \<Rightarrow> uint \<Rightarrow> store \<times> addr list \<Rightarrow> store \<times> addr list" where
  "pass2_transpose_logged q i k sw =
     (pass2_transpose q i k (fst sw),
      snd sw @ [buf_y q + unat (transpose_index (mr_P q) i k)])"

definition pass2_body_logged ::
  "'sp fft_env \<Rightarrow> 'sp fft_plan \<Rightarrow> uint \<Rightarrow> store \<times> addr list \<Rightarrow> store \<times> addr list" where
  "pass2_body_logged env q i sw =
     (let sa = for_loop 0 (mr_Q q) (pass2_gather q i) (fst sw);
          sb = fft_execute env (subplans q ! 1) sa
      in for_loop 0 (mr_Q q) (pass2_transpose_logged q i) (sb, snd sw))"

definition execute_logged :: "'sp fft_env \<Rightarrow> 'sp fft_plan \<Rightarrow> store \<Rightarrow> store \<times> addr list" where
  "execute_logged env q s =
     (let s1 = memmove (mr_x q) (buf_x q) (unat (nfft q)) s;
          s2 = for_loop 0 (mr_Q q) (pass1_body env q) s1
      in for_loop 0 (mr_P q) (pass2_body_logged env q) (s2, []))"

section \<open>Reference notions\<close>

text \<open>Primality, as trial division decides it.\<close>

definition is_prime :: "nat \<Rightarrow> bool" where
  "is_prime n \<longleftrightarrow> 2 \<le> n \<and> (\<forall>d\<in>{2..<n}. \<not> d dvd n)"

text \<open>
  The direct transform of length \<open>n\<close> with sign \<open>d\<close> of the exponent:
  \<open>dft d n f m\<close> is the sum over \<open>j < n\<close> of \<open>f j * exp (\<i> d 2 \<pi> m j / n)\<close>.
\<close>

definition dft :: "real \<Rightarrow> nat \<Rightarrow> (nat \<Rightarrow> complex) \<Rightarrow> nat \<Rightarrow> complex" where
  "dft d n f m =
     (\<Sum>j<n. f j * exp (\<i> * complex_of_real d * 2 * complex_of_real pi * of_nat (m * j) / of_nat n))"

text \<open>The generator of the exponentials of a transform of length \<open>n\<close> and sign \<open>d\<close>.\<close>

definition unity_root :: "real \<Rightarrow> nat \<Rightarrow> complex" where
  "unity_root d n = exp (\<i> * complex_of_real d * 2 * complex_of_real pi / of_nat n)"

text \<open>The cells of a buffer of \<open>n\<close> cells at \<open>p\<close>.\<close>

definition blk :: "addr \<Rightarrow> nat \<Rightarrow> addr set" where
  "blk p n = {p..<p + n}"

text \<open>
  The length \<^verbatim>\<open>t_len\<close> of the two scratch buffers (line 80), and the cells the executor
  may write: the staging buffer \<^verbatim>\<open>data.mixedradix.x\<close>, the scratch buffers \<^verbatim>\<open>t0\<close> and
  \<^verbatim>\<open>t1\<close>, the output \<^verbatim>\<open>y\<close>, and the cells \<open>priv\<close> that the sub-plans own.
\<close>

definition t_len :: "'sp fft_plan \<Rightarrow> nat" where
  "t_len q = (if mr_Q q > mr_P q then unat (mr_Q q) else unat (mr_P q))"

definition exec_writes :: "'sp fft_plan \<Rightarrow> addr set \<Rightarrow> addr set" where
  "exec_writes q priv =
     blk (mr_x q) (unat (nfft q)) \<union> blk (mr_t0 q) (t_len q) \<union> blk (mr_t1 q) (t_len q)
       \<union> blk (buf_y q) (unat (nfft q)) \<union> priv"

text \<open>
  What is assumed of a sub-plan, whose code is behind the dispatcher. Running a
  sub-plan of size \<open>n\<close> from \<open>src\<close> to \<open>dst\<close> changes no cell outside \<open>src\<close>, \<open>dst\<close> and
  the cells \<open>priv\<close> it owns (\<open>subplan_frame\<close>); and in every store where its own tables
  are intact (\<open>intact\<close>), it keeps them intact and leaves in \<open>dst\<close> the direct transform,
  with sign \<open>d\<close>, of what \<open>src\<close> held (\<open>subplan_dft\<close>).
\<close>

definition subplan_frame :: "(store \<Rightarrow> store) \<Rightarrow> nat \<Rightarrow> addr \<Rightarrow> addr \<Rightarrow> addr set \<Rightarrow> bool" where
  "subplan_frame run n src dst priv \<longleftrightarrow>
     (\<forall>s a. a \<notin> priv \<union> blk dst n \<union> blk src n \<longrightarrow> run s a = s a)"

definition subplan_dft ::
  "(store \<Rightarrow> store) \<Rightarrow> real \<Rightarrow> nat \<Rightarrow> addr \<Rightarrow> addr \<Rightarrow> (store \<Rightarrow> bool) \<Rightarrow> bool" where
  "subplan_dft run d n src dst intact \<longleftrightarrow>
     (\<forall>s. intact s \<longrightarrow> intact (run s) \<and> (\<forall>k<n. run s (dst + k) = dft d n (\<lambda>j. s (src + j)) k))"

definition subplans_frame :: "'sp fft_env \<Rightarrow> 'sp fft_plan \<Rightarrow> addr set \<Rightarrow> bool" where
  "subplans_frame env q priv \<longleftrightarrow>
     subplan_frame (fft_execute env (subplans q ! 0)) (unat (mr_P q)) (mr_t0 q) (mr_t1 q) priv \<and>
     subplan_frame (fft_execute env (subplans q ! 1)) (unat (mr_Q q)) (mr_t0 q) (mr_t1 q) priv"

definition subplans_dft ::
  "'sp fft_env \<Rightarrow> 'sp fft_plan \<Rightarrow> real \<Rightarrow> addr set \<Rightarrow> (store \<Rightarrow> bool) \<Rightarrow> bool" where
  "subplans_dft env q d priv intact \<longleftrightarrow>
     subplan_dft (fft_execute env (subplans q ! 0)) d (unat (mr_P q)) (mr_t0 q) (mr_t1 q) intact \<and>
     subplan_dft (fft_execute env (subplans q ! 1)) d (unat (mr_Q q)) (mr_t0 q) (mr_t1 q) intact \<and>
     (\<forall>s s'. intact s \<and> (\<forall>a\<in>priv. s' a = s a) \<longrightarrow> intact s')"

text \<open>
  The layout the executor relies on: \<open>P * Q = N\<close> without wrap-around; the staging
  buffer, the two scratch buffers, the twiddle table and the sub-plans' cells are
  pairwise disjoint; and the output buffer is disjoint from all of them. The input
  buffer is not constrained.
\<close>

definition plan_layout :: "'sp fft_plan \<Rightarrow> addr set \<Rightarrow> bool" where
  "plan_layout q priv \<longleftrightarrow>
     unat (mr_P q) * unat (mr_Q q) = unat (nfft q) \<and>
     blk (mr_x q) (unat (nfft q)) \<inter> blk (mr_t0 q) (t_len q) = {} \<and>
     blk (mr_x q) (unat (nfft q)) \<inter> blk (mr_t1 q) (t_len q) = {} \<and>
     blk (mr_x q) (unat (nfft q)) \<inter> blk (twiddle q) (unat (nfft q)) = {} \<and>
     blk (mr_x q) (unat (nfft q)) \<inter> priv = {} \<and>
     blk (mr_t0 q) (t_len q) \<inter> blk (mr_t1 q) (t_len q) = {} \<and>
     blk (mr_t0 q) (t_len q) \<inter> blk (twiddle q) (unat (nfft q)) = {} \<and>
     blk (mr_t0 q) (t_len q) \<inter> priv = {} \<and>
     blk (mr_t1 q) (t_len q) \<inter> blk (twiddle q) (unat (nfft q)) = {} \<and>
     blk (mr_t1 q) (t_len q) \<inter> priv = {} \<and>
     blk (twiddle q) (unat (nfft q)) \<inter> priv = {} \<and>
     blk (buf_y q) (unat (nfft q)) \<inter>
       (blk (mr_x q) (unat (nfft q)) \<union> blk (mr_t0 q) (t_len q) \<union> blk (mr_t1 q) (t_len q)
          \<union> blk (twiddle q) (unat (nfft q)) \<union> priv) = {}"

text \<open>The sign of the exponent that goes with the direction stored in a plan (line 109).\<close>

definition plan_sign :: "'sp fft_env \<Rightarrow> 'sp fft_plan \<Rightarrow> real" where
  "plan_sign env q = (if direction q = FFT_FORWARD env then - 1 else 1)"

text \<open>The twiddle table of the plan holds, in store \<open>s\<close>, the exponentials of sign \<open>d\<close>.\<close>

definition twiddle_ok :: "'sp fft_plan \<Rightarrow> real \<Rightarrow> store \<Rightarrow> bool" where
  "twiddle_ok q d s \<longleftrightarrow>
     (\<forall>i<unat (nfft q). s (twiddle q + i) =
        exp (\<i> * complex_of_real d * 2 * complex_of_real pi * of_nat i / of_nat (unat (nfft q))))"

text \<open>
  Exact arithmetic: \<^verbatim>\<open>M_PI\<close> is \<open>\<pi>\<close>, the conversion of an index changes nothing, products
  and quotients are those of the complex numbers and \<^verbatim>\<open>cexpf\<close> is the exponential.
\<close>

definition exact_arith :: "'sp fft_env \<Rightarrow> bool" where
  "exact_arith env \<longleftrightarrow>
     M_PI env = pi \<and> (\<forall>i. cast_T env i = real (unat i)) \<and>
     mul_d env = (*) \<and> mul_2 env = (*) \<and> mul_M_PI env = (*) \<and> mul_i env = (*) \<and>
     div_nfft env = (/) \<and> cexpf env = exp"

text \<open>A plan factory that only allocates: it never moves \<open>brk\<close> back.\<close>

definition factory_grows :: "'sp fft_env \<Rightarrow> bool" where
  "factory_grows env \<longleftrightarrow>
     (\<forall>n x y d f h. brk h \<le> brk (snd (fft_create_plan env n x y d f h)))"

text \<open>
  An environment for concrete instances: the direction constants are 1 and -1, a
  sub-plan is the quadruple of its size, input, output and direction, built and
  released without touching the heap, and running it writes the direct transform of
  its input into its output; the arithmetic is exact.
\<close>

type_synonym direct_plan = "uint \<times> addr \<times> addr \<times> int"

definition direct_create_plan ::
  "uint \<Rightarrow> addr \<Rightarrow> addr \<Rightarrow> int \<Rightarrow> int \<Rightarrow> heap \<Rightarrow> direct_plan \<times> heap" where
  "direct_create_plan n x y dir fl h = ((n, x, y, dir), h)"

definition direct_execute :: "direct_plan \<Rightarrow> store \<Rightarrow> store" where
  "direct_execute p s =
     (case p of (n, x, y, dir) \<Rightarrow>
        (\<lambda>a. if y \<le> a \<and> a < y + unat n
             then dft (if dir = 1 then - 1 else 1) (unat n) (\<lambda>j. s (x + j)) (a - y)
             else s a))"

definition ref_env :: "direct_plan fft_env" where
  "ref_env = \<lparr>FFT_FORWARD = 1, FFT_REVERSE = - 1,
              fft_create_plan = direct_create_plan, fft_execute = direct_execute,
              fft_destroy_plan = (\<lambda>p h. h),
              M_PI = pi, cast_T = (\<lambda>i. real (unat i)),
              mul_d = (*), mul_2 = (*), mul_M_PI = (*), mul_i = (*), div_nfft = (/),
              cexpf = exp\<rparr>"

text \<open>
  The same environment with a \<^verbatim>\<open>cexpf\<close> of finite precision: both parts of its result
  are rounded to the nearest multiple of \<open>2 ^ -24\<close>, the spacing of the single-precision
  numbers between 1/2 and 1.
\<close>

definition round_grid :: "real \<Rightarrow> real" where
  "round_grid x = of_int (round (x * 2 ^ 24)) / 2 ^ 24"

definition rounding_env :: "direct_plan fft_env" where
  "rounding_env =
     ref_env\<lparr>cexpf := (\<lambda>z. Complex (round_grid (Re (exp z))) (round_grid (Im (exp z))))\<rparr>"

definition heap0 :: heap where
  "heap0 = \<lparr>cells = (\<lambda>a. 0), brk = 100, live = []\<rparr>"

section \<open>Arithmetic of the counters\<close>

lemma uint_succ: "(i::uint) < n \<Longrightarrow> unat (i + 1) = Suc (unat i)"
proof -
  assume "i < n"
  then have "unat i < unat n" by (simp add: word_less_nat_alt)
  moreover have "unat n < 2 ^ 32" using unsigned_less [of n] by simp
  ultimately have "unat i + unat (1::uint) < 2 ^ LENGTH(32)" by simp
  then have "unat (i + 1) = unat i + unat (1::uint)" by (simp only: unat_add_lem)
  then show ?thesis by simp
qed

lemma uint_mod_zero: "(n::uint) mod i = 0 \<longleftrightarrow> unat i dvd unat n \<or> (i = 0 \<and> n = 0)"
proof -
  have "n mod i = 0 \<longleftrightarrow> unat (n mod i) = 0" by (simp add: unat_eq_zero)
  also have "\<dots> \<longleftrightarrow> unat n mod unat i = 0" by (simp add: unat_mod)
  also have "\<dots> \<longleftrightarrow> unat i dvd unat n \<or> (i = 0 \<and> n = 0)"
    by (cases "i = 0") (auto simp: unat_eq_zero mod_eq_0_iff_dvd)
  finally show ?thesis .
qed

section \<open>The factor search\<close>

lemma find_first_factor_spec:
  "2 \<le> unat i \<Longrightarrow>
   (find_first_factor n i = 0 \<and> (\<forall>d. unat i \<le> d \<and> d < unat n \<longrightarrow> \<not> d dvd unat n)) \<or>
   (unat i \<le> unat (find_first_factor n i) \<and> unat (find_first_factor n i) < unat n \<and>
    unat (find_first_factor n i) dvd unat n \<and>
    (\<forall>d. unat i \<le> d \<and> d < unat (find_first_factor n i) \<longrightarrow> \<not> d dvd unat n))"
proof (induction n i rule: find_first_factor.induct)
  case (1 n i)
  show ?case
  proof (cases "i < n")
    case False
    then have "find_first_factor n i = 0" by (simp add: find_first_factor.simps)
    moreover from False have "unat n \<le> unat i" by (simp add: word_less_nat_alt)
    ultimately show ?thesis by auto
  next
    case lt: True
    then have ult: "unat i < unat n" by (simp add: word_less_nat_alt)
    have i0: "i \<noteq> 0" using "1.prems" by (auto simp: unat_eq_zero)
    show ?thesis
    proof (cases "n mod i = 0")
      case True
      then have "find_first_factor n i = i" using lt by (simp add: find_first_factor.simps)
      moreover from True i0 have "unat i dvd unat n" by (simp add: uint_mod_zero)
      ultimately show ?thesis using ult by auto
    next
      case False
      then have eq: "find_first_factor n i = find_first_factor n (i + 1)"
        using lt by (simp add: find_first_factor.simps)
      have suc: "unat (i + 1) = Suc (unat i)" using lt by (rule uint_succ)
      from False i0 have nd: "\<not> unat i dvd unat n" by (simp add: uint_mod_zero)
      have "2 \<le> unat (i + 1)" using suc "1.prems" by simp
      from "1.IH" [OF lt False this] show ?thesis
        unfolding eq suc using nd
        by (metis Suc_leI le_neq_implies_less Suc_leD)
    qed
  qed
qed

lemma is_prime_iff: "is_prime n \<longleftrightarrow> 2 \<le> n \<and> (\<forall>d. d dvd n \<longrightarrow> d = 1 \<or> d = n)"
proof
  assume p: "is_prime n"
  then have n2: "2 \<le> n" and nd: "\<And>d. 2 \<le> d \<Longrightarrow> d < n \<Longrightarrow> \<not> d dvd n"
    by (auto simp: is_prime_def)
  have "d = 1 \<or> d = n" if "d dvd n" for d
  proof -
    from that n2 have "d \<le> n" by (auto intro: dvd_imp_le)
    moreover from that n2 have "d \<noteq> 0" by (cases "d = 0") auto
    ultimately show ?thesis using nd [of d] that by (cases "d = 1"; cases "d = n") auto
  qed
  with n2 show "2 \<le> n \<and> (\<forall>d. d dvd n \<longrightarrow> d = 1 \<or> d = n)" by blast
next
  assume "2 \<le> n \<and> (\<forall>d. d dvd n \<longrightarrow> d = 1 \<or> d = n)"
  then show "is_prime n" by (auto simp: is_prime_def)
qed

lemma no_factor_iff: "(\<forall>d\<in>{2..<n}. \<not> d dvd n) \<longleftrightarrow> is_prime n \<or> n < 4"
proof (cases "2 \<le> n")
  case True
  show ?thesis
  proof
    assume "\<forall>d\<in>{2..<n}. \<not> d dvd n"
    with True show "is_prime n \<or> n < 4" by (simp add: is_prime_def)
  next
    assume "is_prime n \<or> n < 4"
    then show "\<forall>d\<in>{2..<n}. \<not> d dvd n"
    proof
      assume "is_prime n" then show ?thesis by (simp add: is_prime_def)
    next
      assume "n < 4"
      with True have "n = 2 \<or> n = 3" by arith
      then show ?thesis
      proof
        assume "n = 2" then show ?thesis by simp
      next
        assume n3: "n = 3"
        have "{2..<3::nat} = {2}" by auto
        with n3 show ?thesis by simp
      qed
    qed
  qed
next
  case False
  then have "{2..<n} = {}" and "n < 4" by auto
  then show ?thesis by simp
qed

lemma first_factor_zero_iff:
  "find_first_factor n 2 = 0 \<longleftrightarrow> (\<forall>d\<in>{2..<unat n}. \<not> d dvd unat n)"
  using find_first_factor_spec [of 2 n] by (auto simp: unat_eq_zero)

lemma first_factor_props:
  assumes "find_first_factor n 2 \<noteq> 0"
  shows "2 \<le> unat (find_first_factor n 2)"
    and "unat (find_first_factor n 2) < unat n"
    and "unat (find_first_factor n 2) dvd unat n"
    and "\<And>d. 2 \<le> d \<Longrightarrow> d dvd unat n \<Longrightarrow> unat (find_first_factor n 2) \<le> d"
proof -
  let ?Q = "find_first_factor n 2"
  from find_first_factor_spec [of 2 n] assms
  have a: "2 \<le> unat ?Q" and b: "unat ?Q < unat n" and c: "unat ?Q dvd unat n"
    and m: "\<forall>d. 2 \<le> d \<and> d < unat ?Q \<longrightarrow> \<not> d dvd unat n"
    by auto
  show "2 \<le> unat ?Q" "unat ?Q < unat n" "unat ?Q dvd unat n" by fact+
  show "unat ?Q \<le> d" if "2 \<le> d" "d dvd unat n" for d
    using m that by (meson not_le_imp_less)
qed

section \<open>The builder: the factors\<close>

lemma create_plan_fails:
  "find_first_factor n 2 = 0 \<Longrightarrow>
   create_plan_mixed_radix env n x y dir fl h = Inl (Exit_prime n, malloc_struct Plan_struct h)"
  by (simp add: create_plan_mixed_radix_def Let_def)

lemma create_plan_succeeds:
  assumes "find_first_factor n 2 \<noteq> 0"
  shows "\<exists>q h'. create_plan_mixed_radix env n x y dir fl h = Inr (q, h') \<and>
           nfft q = n \<and> buf_x q = x \<and> buf_y q = y \<and> flags q = fl \<and>
           direction q = (if dir = FFT_FORWARD env then FFT_FORWARD env else FFT_REVERSE env) \<and>
           mr_Q q = find_first_factor n 2 \<and> mr_P q = n div find_first_factor n 2 \<and>
           length (subplans q) = 2 \<and> num_subplans q = 2"
  using assms by (simp add: create_plan_mixed_radix_def Let_def split: prod.splits)

lemma create_plan_Inr_fields:
  assumes "create_plan_mixed_radix env n x y dir fl h = Inr (q, h')"
  shows "find_first_factor n 2 \<noteq> 0" and "nfft q = n" and "buf_x q = x" and "buf_y q = y"
    and "direction q = (if dir = FFT_FORWARD env then FFT_FORWARD env else FFT_REVERSE env)"
    and "mr_Q q = find_first_factor n 2" and "mr_P q = n div find_first_factor n 2"
    and "length (subplans q) = 2"
proof -
  show nz: "find_first_factor n 2 \<noteq> 0"
    using assms create_plan_fails [of n env x y dir fl h] by auto
  from create_plan_succeeds [OF nz, of env x y dir fl h] assms
  show "nfft q = n" "buf_x q = x" "buf_y q = y"
    "direction q = (if dir = FFT_FORWARD env then FFT_FORWARD env else FFT_REVERSE env)"
    "mr_Q q = find_first_factor n 2" "mr_P q = n div find_first_factor n 2"
    "length (subplans q) = 2"
    by auto
qed

lemma uint_div_mult_exact:
  assumes "unat (b::uint) dvd unat a"
  shows "unat (a div b) * unat b = unat a" and "a div b * b = a"
proof -
  show u: "unat (a div b) * unat b = unat a"
    using assms by (simp add: unat_div)
  have "unat (a div b) * unat b < 2 ^ LENGTH(32)"
    unfolding u using unsigned_less [of a] by simp
  then have "unat (a div b * b) = unat (a div b) * unat b"
    by (simp only: unat_mult_lem)
  with u have "unat (a div b * b) = unat a" by simp
  then show "a div b * b = a" by (simp only: word_unat_eq_iff)
qed

text \<open>
  Claim C2. Whenever the builder succeeds on \<open>N\<close>, the stored \<open>Q\<close> lies in \<open>[2, N)\<close>,
  divides \<open>N\<close> and is no larger than any divisor of \<open>N\<close> from 2 on, so it is the least
  prime factor of \<open>N\<close>; the stored \<open>P\<close> is \<open>N / Q\<close>, and \<open>P * Q = N\<close> both in
  \<^verbatim>\<open>unsigned int\<close> arithmetic and without wrap-around.
\<close>

theorem builder_factors:
  assumes "create_plan_mixed_radix env n x y dir fl h = Inr (q, h')"
  shows "nfft q = n \<and> 2 \<le> unat (mr_Q q) \<and> unat (mr_Q q) < unat n \<and>
         unat (mr_Q q) dvd unat n \<and>
         (\<forall>d. 2 \<le> d \<and> d dvd unat n \<longrightarrow> unat (mr_Q q) \<le> d) \<and>
         is_prime (unat (mr_Q q)) \<and>
         mr_P q = n div mr_Q q \<and> unat (mr_P q) = unat n div unat (mr_Q q) \<and>
         mr_P q * mr_Q q = n \<and> unat (mr_P q) * unat (mr_Q q) = unat n"
proof -
  note f = create_plan_Inr_fields [OF assms]
  let ?Q = "find_first_factor n 2"
  note p = first_factor_props [OF f(1)]
  have prime: "is_prime (unat ?Q)"
    unfolding is_prime_def
  proof (intro conjI ballI)
    show "2 \<le> unat ?Q" by (rule p(1))
  next
    fix d assume d: "d \<in> {2..<unat ?Q}"
    show "\<not> d dvd unat ?Q"
    proof
      assume "d dvd unat ?Q"
      then have "d dvd unat n" using p(3) by (rule dvd_trans)
      with d p(4) [of d] show False by simp
    qed
  qed
  have "unat (n div ?Q) = unat n div unat ?Q" by (simp add: unat_div)
  with f p prime uint_div_mult_exact [OF p(3)] show ?thesis by simp
qed

theorem builder_factors_witness:
  "\<exists>q h'. create_plan_mixed_radix ref_env 6 0 6 1 0 heap0 = Inr (q, h') \<and>
      unat (mr_Q q) = 2 \<and> unat (mr_P q) = 3 \<and> is_prime (unat (mr_Q q)) \<and>
      mr_P q * mr_Q q = 6"
proof -
  have "find_first_factor 6 2 \<noteq> 0" by (simp add: find_first_factor.simps)
  from create_plan_succeeds [OF this]
  obtain q h' where r: "create_plan_mixed_radix ref_env 6 0 6 1 0 heap0 = Inr (q, h')"
    by blast
  note t = builder_factors [OF r]
  from t have "unat (mr_Q q) \<le> 2" by simp
  with t have Q: "unat (mr_Q q) = 2" by simp
  from t have "unat (mr_P q) = unat (6::uint) div unat (mr_Q q)" by blast
  with Q have P: "unat (mr_P q) = 3" by simp
  from t have "is_prime (unat (mr_Q q))" and "mr_P q * mr_Q q = 6" by blast+
  with r P Q show ?thesis by simp
qed

section \<open>Loops\<close>

text \<open>The invariant rule for \<open>for_loop\<close>: the counter is read through \<open>unat\<close>.\<close>

lemma uint_less_unat: "(i::uint) < n \<longleftrightarrow> unat i < unat n"
  by (simp add: word_less_nat_alt)

lemma uint_le_unat: "(i::uint) \<le> n \<longleftrightarrow> unat i \<le> unat n"
  by (simp add: word_le_nat_alt)

lemma for_loop_rule_from:
  assumes "I (unat i) s" and "i \<le> n"
    and "\<And>k s. i \<le> k \<Longrightarrow> k < n \<Longrightarrow> I (unat k) s \<Longrightarrow> I (Suc (unat k)) (body k s)"
  shows "I (unat n) (for_loop i n body s)"
  using assms
proof (induction i n body s rule: for_loop.induct)
  case (1 i n body s)
  show ?case
  proof (cases "i < n")
    case True
    have suc: "unat (i + 1) = Suc (unat i)" using True by (rule uint_succ)
    have a: "I (unat (i + 1)) (body i s)"
      unfolding suc using "1.prems"(1) True by (intro "1.prems"(3)) simp_all
    have b: "i + 1 \<le> n" using True suc by (simp add: uint_le_unat uint_less_unat)
    have c: "I (Suc (unat k)) (body k s')" if "i + 1 \<le> k" "k < n" "I (unat k) s'" for k s'
    proof -
      from that(1) suc have "i \<le> k" by (simp add: uint_le_unat)
      then show ?thesis using that by (intro "1.prems"(3))
    qed
    have "for_loop i n body s = for_loop (i + 1) n body (body i s)"
      using True by (simp add: for_loop.simps [of i])
    with "1.IH" [OF True a b c] show ?thesis by simp
  next
    case False
    with "1.prems"(2) have "i = n" by simp
    moreover from False have "for_loop i n body s = s" by (simp add: for_loop.simps [of i])
    ultimately show ?thesis using "1.prems"(1) by simp
  qed
qed

lemma for_loop_rule:
  assumes "I 0 s"
    and "\<And>k s. k < n \<Longrightarrow> I (unat k) s \<Longrightarrow> I (Suc (unat k)) (body k s)"
  shows "I (unat n) (for_loop 0 n body s)"
  using for_loop_rule_from [of I 0 s n body] assms by simp

section \<open>The builder: the twiddle table and the heap\<close>

lemma twiddle_loop:
  assumes "i < n"
  shows "for_loop 0 n (\<lambda>i c. c(tw + unat i := g i)) c0 (tw + unat i) = g i"
proof -
  have "\<forall>i. unat i < unat n \<longrightarrow>
          for_loop 0 n (\<lambda>i c. c(tw + unat i := g i)) c0 (tw + unat i) = g i"
  proof (rule for_loop_rule [where I = "\<lambda>j c. \<forall>i. unat i < j \<longrightarrow> c (tw + unat i) = g i"])
    show "\<forall>i::uint. unat i < 0 \<longrightarrow> c0 (tw + unat i) = g i" by simp
  next
    fix k :: uint and c
    assume "k < n" and inv: "\<forall>i. unat i < unat k \<longrightarrow> c (tw + unat i) = g i"
    show "\<forall>i. unat i < Suc (unat k) \<longrightarrow> (c(tw + unat k := g k)) (tw + unat i) = g i"
    proof (intro allI impI)
      fix i :: uint assume lt: "unat i < Suc (unat k)"
      show "(c(tw + unat k := g k)) (tw + unat i) = g i"
      proof (cases "unat i = unat k")
        case True
        then have "i = k" by (simp only: word_unat_eq_iff)
        then show ?thesis by simp
      next
        case False
        with lt have "unat i < unat k" by simp
        with inv False show ?thesis by simp
      qed
    qed
  qed
  with assms show ?thesis by (simp add: word_less_nat_alt)
qed

lemma create_plan_twiddle:
  assumes "create_plan_mixed_radix env n x y dir fl h = Inr (q, h')" and "i < n"
  shows "cells h' (twiddle q + unat i) =
           twiddle_value env (if direction q = FFT_FORWARD env then - 1 else 1) i n"
proof -
  have nz: "find_first_factor n 2 \<noteq> 0" using assms(1) by (rule create_plan_Inr_fields)
  show ?thesis
    using assms(1) nz
      twiddle_loop [OF assms(2), of _
        "\<lambda>j. twiddle_value env (if direction q = FFT_FORWARD env then - 1 else 1) j n"]
    by (auto simp: create_plan_mixed_radix_def Let_def split: prod.splits)
qed

lemma create_plan_twiddle_nat:
  assumes "create_plan_mixed_radix env n x y dir fl h = Inr (q, h')" and "i < unat n"
  shows "cells h' (twiddle q + i) =
           twiddle_value env (if direction q = FFT_FORWARD env then - 1 else 1) (of_nat i) n"
proof -
  have "unat n < 2 ^ LENGTH(32)" by (rule unsigned_less)
  with assms(2) have u: "unat (of_nat i :: uint) = i" by (simp add: unat_of_nat)
  with assms(2) have "(of_nat i :: uint) < n" by (simp add: word_less_nat_alt)
  from create_plan_twiddle [OF assms(1) this] u show ?thesis by simp
qed

lemma twiddle_value_exact:
  assumes "exact_arith env"
  shows "twiddle_value env d i n =
           exp (\<i> * complex_of_real d * 2 * complex_of_real pi * of_nat (unat i)
                  / of_nat (unat n))"
proof -
  from assms have p: "M_PI env = pi" and c: "\<And>i. cast_T env i = real (unat i)"
    and m: "mul_d env = (*)" "mul_2 env = (*)" "mul_M_PI env = (*)" "mul_i env = (*)"
    and dv: "div_nfft env = (/)" and e: "cexpf env = exp"
    unfolding exact_arith_def by blast+
  show ?thesis unfolding twiddle_value_def p c m dv e of_real_of_nat_eq ..
qed

lemma exact_arith_ref_env: "exact_arith ref_env"
  by (simp add: exact_arith_def ref_env_def)

lemma create_plan_twiddle_exact:
  assumes "create_plan_mixed_radix env n x y dir fl h = Inr (q, h')" and "i < unat n"
    and "exact_arith env"
  shows "cells h' (twiddle q + i) =
           exp (\<i> * complex_of_real (if direction q = FFT_FORWARD env then - 1 else 1) * 2
                  * complex_of_real pi * of_nat i / of_nat (unat n))"
proof -
  have "unat n < 2 ^ LENGTH(32)" by (rule unsigned_less)
  with assms(2) have u: "unat (of_nat i :: uint) = i" by (simp add: unat_of_nat)
  show ?thesis
    unfolding create_plan_twiddle_nat [OF assms(1,2)] twiddle_value_exact [OF assms(3)] u ..
qed

lemma exp_as_cis:
  "exp (\<i> * complex_of_real d * 2 * complex_of_real pi * of_nat i / of_nat n)
     = cis (d * 2 * pi * real i / real n)"
proof -
  have "\<i> * complex_of_real d * 2 * complex_of_real pi * of_nat i / of_nat n
          = \<i> * complex_of_real (d * 2 * pi * real i / real n)"
    by simp
  then show ?thesis by (simp only: cis_conv_exp)
qed

text \<open>The square root of 2 is not a fraction; neither is the cosine of an eighth of a turn.\<close>

lemma sqrt_2_not_rat: "sqrt 2 \<notin> \<rat>"
proof
  assume "sqrt 2 \<in> \<rat>"
  then obtain m n :: nat where n: "n \<noteq> 0" and e: "\<bar>sqrt 2\<bar> = real m / real n"
    and c: "coprime m n"
    by (rule Rats_abs_nat_div_natE)
  from e n have "real m = sqrt 2 * real n" by (simp add: field_simps)
  then have "(real m)\<^sup>2 = (sqrt 2)\<^sup>2 * (real n)\<^sup>2" by (simp only: power_mult_distrib)
  then have "real (m\<^sup>2) = real (2 * n\<^sup>2)" by simp
  then have eq: "m\<^sup>2 = 2 * n\<^sup>2" by (simp only: of_nat_eq_iff)
  then have "2 dvd m\<^sup>2" by simp
  then have m2: "2 dvd m" by simp
  then obtain k where "m = 2 * k" ..
  with eq have "2 * n\<^sup>2 = 2 * (2 * k\<^sup>2)" by (simp add: power2_eq_square)
  then have "n\<^sup>2 = 2 * k\<^sup>2" by simp
  then have "2 dvd n\<^sup>2" by simp
  then have "2 dvd n" by simp
  with m2 have "2 dvd gcd m n" by (rule gcd_greatest)
  with c show False by simp
qed

lemma cos_eighth_not_rat: "cos (pi / 4) \<notin> \<rat>"
proof
  assume "cos (pi / 4) \<in> \<rat>"
  then have "sqrt 2 / 2 \<in> \<rat>" by (simp only: cos_45)
  then have "2 * (sqrt 2 / 2) \<in> \<rat>" by (intro Rats_mult) simp_all
  then show False using sqrt_2_not_rat by simp
qed

lemma round_grid_rat: "round_grid x \<in> \<rat>"
  by (simp add: round_grid_def)

text \<open>
  Claim C4, as amended. After a successful build, for either direction and every
  \<open>i < N\<close>, cell \<open>i\<close> of the twiddle table holds what line 111 computes in the
  arithmetic of the library: \<^verbatim>\<open>cexpf\<close> of \<^verbatim>\<open>_Complex_I*d*2*M_PI*(T)i / (T)N\<close>, where \<open>d\<close> is
  -1 when the stored direction is \<^verbatim>\<open>FFT_FORWARD\<close> and +1 otherwise. Where that
  arithmetic is exact, the entry is \<open>exp (sign * 2 \<pi> \<i> * i / N)\<close>, the point
  \<open>cis (sign * 2 \<pi> i / N)\<close> of the unit circle: its modulus is 1. In either case \<open>N\<close>
  enters the entry only as the divisor of the angle, so no factor \<open>1/N\<close> is folded
  into the table.
\<close>

theorem builder_twiddle_table:
  assumes "create_plan_mixed_radix env n x y dir fl h = Inr (q, h')" and "i < n"
  shows "cells h' (twiddle q + unat i) =
           cexpf env
             (div_nfft env
                (mul_i env
                   (mul_M_PI env
                      (mul_2 env
                         (mul_d env \<i>
                            (complex_of_real (if direction q = FFT_FORWARD env then - 1 else 1)))
                         2)
                      (complex_of_real (M_PI env)))
                   (complex_of_real (cast_T env i)))
                (complex_of_real (cast_T env n))) \<and>
         cells h' (twiddle q + unat i) =
           twiddle_value env (if direction q = FFT_FORWARD env then - 1 else 1) i n \<and>
         (exact_arith env \<longrightarrow>
            cells h' (twiddle q + unat i) =
              exp (\<i> * complex_of_real (if direction q = FFT_FORWARD env then - 1 else 1) * 2
                     * complex_of_real pi * of_nat (unat i) / of_nat (unat n)) \<and>
            cells h' (twiddle q + unat i) =
              cis ((if direction q = FFT_FORWARD env then - 1 else 1) * 2 * pi * real (unat i)
                     / real (unat n)) \<and>
            cmod (cells h' (twiddle q + unat i)) = 1)"
proof -
  note g = create_plan_twiddle [OF assms]
  have a: "cells h' (twiddle q + unat i) =
           cexpf env
             (div_nfft env
                (mul_i env
                   (mul_M_PI env
                      (mul_2 env
                         (mul_d env \<i>
                            (complex_of_real (if direction q = FFT_FORWARD env then - 1 else 1)))
                         2)
                      (complex_of_real (M_PI env)))
                   (complex_of_real (cast_T env i)))
                (complex_of_real (cast_T env n)))"
    unfolding g by (simp only: twiddle_value_def)
  have b: "cells h' (twiddle q + unat i) =
              exp (\<i> * complex_of_real (if direction q = FFT_FORWARD env then - 1 else 1) * 2
                     * complex_of_real pi * of_nat (unat i) / of_nat (unat n)) \<and>
            cells h' (twiddle q + unat i) =
              cis ((if direction q = FFT_FORWARD env then - 1 else 1) * 2 * pi * real (unat i)
                     / real (unat n)) \<and>
            cmod (cells h' (twiddle q + unat i)) = 1"
    if ex: "exact_arith env"
  proof -
    have e: "cells h' (twiddle q + unat i) =
              exp (\<i> * complex_of_real (if direction q = FFT_FORWARD env then - 1 else 1) * 2
                     * complex_of_real pi * of_nat (unat i) / of_nat (unat n))"
      unfolding g by (rule twiddle_value_exact [OF ex])
    then have c: "cells h' (twiddle q + unat i) =
              cis ((if direction q = FFT_FORWARD env then - 1 else 1) * 2 * pi * real (unat i)
                     / real (unat n))"
      by (simp only: exp_as_cis)
    then have "cmod (cells h' (twiddle q + unat i)) = 1" by (simp only: norm_cis)
    with e c show ?thesis by blast
  qed
  from a g b show ?thesis by blast
qed

theorem builder_twiddle_table_witness:
  "\<exists>q h'. create_plan_mixed_radix ref_env 4 0 4 1 0 heap0 = Inr (q, h') \<and>
      direction q = FFT_FORWARD ref_env \<and> cells h' (twiddle q + 1) = - \<i>"
proof -
  have "find_first_factor 4 2 \<noteq> 0" by (simp add: find_first_factor.simps)
  from create_plan_succeeds [OF this, of ref_env 0 4 1 0 heap0]
  obtain q h' where r: "create_plan_mixed_radix ref_env 4 0 4 1 0 heap0 = Inr (q, h')"
    and "direction q = (if 1 = FFT_FORWARD ref_env then FFT_FORWARD ref_env
                        else FFT_REVERSE ref_env)"
    by blast
  then have d: "direction q = FFT_FORWARD ref_env" by (simp add: ref_env_def)
  have "(1::uint) < 4" by simp
  from builder_twiddle_table [OF r this] exact_arith_ref_env
  have "cells h' (twiddle q + unat (1::uint)) =
      cis ((if direction q = FFT_FORWARD ref_env then - 1 else 1) * 2 * pi * real (unat (1::uint))
             / real (unat (4::uint)))"
    by blast
  with d have "cells h' (twiddle q + 1) = - \<i>" by simp
  with r d show ?thesis by blast
qed

text \<open>
  Every floating-point number is rational. So whenever the real part of what \<^verbatim>\<open>cexpf\<close>
  returns is rational, whatever the rest of the arithmetic, cell 1 of the table of a
  forward plan of size 8 is not \<open>exp (- 2 \<pi> \<i> / 8)\<close>, whose real part is \<open>sqrt 2 / 2\<close>.
\<close>

lemma rational_cexpf_entry:
  assumes r: "create_plan_mixed_radix env 8 x y dir fl h = Inr (q, h')"
    and rat: "\<And>z. Re (cexpf env z) \<in> \<rat>"
  shows "cells h' (twiddle q + 1)
           \<noteq> exp (\<i> * complex_of_real (- 1) * 2 * complex_of_real pi * of_nat 1 / of_nat 8)"
proof -
  have "(1::uint) < 8" by simp
  from create_plan_twiddle [OF r this]
  have "cells h' (twiddle q + 1)
          = twiddle_value env (if direction q = FFT_FORWARD env then - 1 else 1) 1 8"
    by simp
  then have "Re (cells h' (twiddle q + 1)) \<in> \<rat>"
    by (simp only: twiddle_value_def rat)
  moreover have "exp (\<i> * complex_of_real (- 1) * 2 * complex_of_real pi * of_nat 1 / of_nat 8)
                   = cis (- 1 * 2 * pi * real 1 / real 8)"
    by (rule exp_as_cis)
  then have re: "Re (exp (\<i> * complex_of_real (- 1) * 2 * complex_of_real pi * of_nat 1 / of_nat 8))
               = cos (pi / 4)"
    by simp
  have "Re (exp (\<i> * complex_of_real (- 1) * 2 * complex_of_real pi * of_nat 1 / of_nat 8))
               \<notin> \<rat>"
    unfolding re by (rule cos_eighth_not_rat)
  ultimately show ?thesis by metis
qed

text \<open>
  Claim C4 as stated fails where \<^verbatim>\<open>cexpf\<close> rounds. With a \<^verbatim>\<open>cexpf\<close> whose result lies on
  the grid of the multiples of \<open>2 ^ -24\<close>, the forward plan of size 8 has in cell 1 of
  its table a number with a rational real part; the real part of
  \<open>exp (- 2 \<pi> \<i> / 8)\<close> is \<open>sqrt 2 / 2\<close>, which is not rational.
\<close>

theorem builder_twiddle_entry_rounded:
  "\<not> isl (create_plan_mixed_radix rounding_env 8 0 8 1 0 heap0) \<and>
   direction (fst (projr (create_plan_mixed_radix rounding_env 8 0 8 1 0 heap0)))
     = FFT_FORWARD rounding_env \<and>
   cells (snd (projr (create_plan_mixed_radix rounding_env 8 0 8 1 0 heap0)))
      (twiddle (fst (projr (create_plan_mixed_radix rounding_env 8 0 8 1 0 heap0))) + 1)
     \<noteq> exp (\<i> * complex_of_real (- 1) * 2 * complex_of_real pi * of_nat 1 / of_nat 8)"
proof -
  have "find_first_factor 8 2 \<noteq> 0" by (simp add: find_first_factor.simps)
  from create_plan_succeeds [OF this, of rounding_env 0 8 1 0 heap0]
  obtain q h' where r: "create_plan_mixed_radix rounding_env 8 0 8 1 0 heap0 = Inr (q, h')"
    and "direction q = (if 1 = FFT_FORWARD rounding_env then FFT_FORWARD rounding_env
                        else FFT_REVERSE rounding_env)"
    by blast
  then have d: "direction q = FFT_FORWARD rounding_env"
    by (simp add: rounding_env_def ref_env_def)
  have "Re (cexpf rounding_env z) \<in> \<rat>" for z
    by (simp add: rounding_env_def round_grid_rat)
  with r have "cells h' (twiddle q + 1)
     \<noteq> exp (\<i> * complex_of_real (- 1) * 2 * complex_of_real pi * of_nat 1 / of_nat 8)"
    by (rule rational_cexpf_entry)
  with r d show ?thesis by simp
qed

text \<open>
  Claim C10. For every integer passed as direction, a successful build stores
  \<^verbatim>\<open>FFT_FORWARD\<close> when the argument equals \<^verbatim>\<open>FFT_FORWARD\<close> and \<^verbatim>\<open>FFT_REVERSE\<close> for every
  other value (so, the two constants being different, the stored direction is forward
  exactly when the argument is); no value of the direction makes the build fail; and
  the sign of the twiddle exponent is read off the stored direction: it is the factor
  \<open>d\<close> of the argument that line 111 hands to \<^verbatim>\<open>cexpf\<close>, and the sign of the exponent of
  the entries where the arithmetic is exact.
\<close>

theorem builder_direction:
  assumes "create_plan_mixed_radix env n x y dir fl h = Inr (q, h')"
  shows "direction q = (if dir = FFT_FORWARD env then FFT_FORWARD env else FFT_REVERSE env) \<and>
         (FFT_FORWARD env \<noteq> FFT_REVERSE env \<longrightarrow>
            (direction q = FFT_FORWARD env \<longleftrightarrow> dir = FFT_FORWARD env)) \<and>
         (\<forall>dir2. \<not> isl (create_plan_mixed_radix env n x y dir2 fl h)) \<and>
         (\<forall>i<unat n. cells h' (twiddle q + i) =
            twiddle_value env (if direction q = FFT_FORWARD env then - 1 else 1) (of_nat i) n) \<and>
         (exact_arith env \<longrightarrow>
            (\<forall>i<unat n. cells h' (twiddle q + i) =
               exp (\<i> * complex_of_real (if direction q = FFT_FORWARD env then - 1 else 1) * 2
                      * complex_of_real pi * of_nat i / of_nat (unat n))))"
proof -
  note f = create_plan_Inr_fields [OF assms]
  have "\<not> isl (create_plan_mixed_radix env n x y dir2 fl h)" for dir2
    using create_plan_succeeds [OF f(1), of env x y dir2 fl h] by auto
  moreover have "direction q = FFT_FORWARD env \<longleftrightarrow> dir = FFT_FORWARD env"
    if "FFT_FORWARD env \<noteq> FFT_REVERSE env"
    using f(5) that by auto
  ultimately show ?thesis
    using f(5) create_plan_twiddle_nat [OF assms] create_plan_twiddle_exact [OF assms]
    by blast
qed

theorem builder_direction_witness:
  "\<exists>q h'. create_plan_mixed_radix ref_env 4 0 4 5 0 heap0 = Inr (q, h') \<and>
      direction q = FFT_REVERSE ref_env \<and> direction q \<noteq> FFT_FORWARD ref_env \<and>
      cells h' (twiddle q + 1) = \<i>"
proof -
  have "find_first_factor 4 2 \<noteq> 0" by (simp add: find_first_factor.simps)
  from create_plan_succeeds [OF this, of ref_env 0 4 5 0 heap0]
  obtain q h' where r: "create_plan_mixed_radix ref_env 4 0 4 5 0 heap0 = Inr (q, h')"
    by auto
  note t = builder_direction [OF r]
  from t have d: "direction q = FFT_REVERSE ref_env" by (simp add: ref_env_def)
  then have nd: "direction q \<noteq> FFT_FORWARD ref_env" by (simp add: ref_env_def)
  from t exact_arith_ref_env
  have all: "\<forall>i<unat (4::uint). cells h' (twiddle q + i) =
      exp (\<i> * complex_of_real (if direction q = FFT_FORWARD ref_env then - 1 else 1) * 2
             * complex_of_real pi * of_nat i / of_nat (unat (4::uint)))"
    by blast
  have "(1::nat) < unat (4::uint)" by simp
  with all have "cells h' (twiddle q + 1) =
      exp (\<i> * complex_of_real (if direction q = FFT_FORWARD ref_env then - 1 else 1) * 2
             * complex_of_real pi * of_nat 1 / of_nat (unat (4::uint)))"
    by blast
  also have "\<dots> = cis (1 * 2 * pi * real 1 / real (unat (4::uint)))"
    using nd by (simp only: exp_as_cis if_False)
  also have "1 * 2 * pi * real 1 / real (unat (4::uint)) = pi / 2" by simp
  finally have "cells h' (twiddle q + 1) = \<i>" by simp
  with r d nd show ?thesis by blast
qed

text \<open>
  Claim C6, as amended. When the build fails, the error is \<open>Exit_prime N\<close> and the heap
  differs from the heap before the call in one block only: the plan record, allocated
  first and still allocated when \<^verbatim>\<open>exit(1)\<close> is reached. No complex buffer has been
  allocated (\<open>brk\<close> has not moved), no cell has been written and no sub-plan has been
  requested from the factory.
\<close>

theorem builder_failure_heap:
  assumes "create_plan_mixed_radix env n x y dir fl h = Inl (e, h')"
  shows "e = Exit_prime n \<and> live h' = Plan_struct # live h \<and> brk h' = brk h \<and>
         cells h' = cells h"
proof -
  have "find_first_factor n 2 = 0"
    using assms create_plan_succeeds [of n env x y dir fl h] by auto
  from create_plan_fails [OF this, of env x y dir fl h] assms
  show ?thesis by (auto simp: malloc_struct_def)
qed

theorem builder_failure_heap_witness:
  "\<exists>h'. create_plan_mixed_radix ref_env 7 0 7 1 0 heap0 = Inl (Exit_prime 7, h') \<and>
      live h' = [Plan_struct] \<and> brk h' = 100"
proof -
  have "find_first_factor 7 2 = 0" by (simp add: find_first_factor.simps)
  from create_plan_fails [OF this, of ref_env 0 7 1 0 heap0]
  have r: "create_plan_mixed_radix ref_env 7 0 7 1 0 heap0
             = Inl (Exit_prime 7, malloc_struct Plan_struct heap0)" .
  from builder_failure_heap [OF r] r show ?thesis by (simp add: heap0_def)
qed

text \<open>
  Claim C6 as stated fails: on the prime size 7 the build fails and the plan record
  is still among the live blocks, which are not those of the heap before the call.
\<close>

theorem builder_failure_keeps_plan_record:
  "isl (create_plan_mixed_radix ref_env 7 0 7 1 0 heap0) \<and>
   live (snd (projl (create_plan_mixed_radix ref_env 7 0 7 1 0 heap0))) \<noteq> live heap0 \<and>
   live (snd (projl (create_plan_mixed_radix ref_env 7 0 7 1 0 heap0))) = [Plan_struct]"
proof -
  have "find_first_factor 7 2 = 0" by (simp add: find_first_factor.simps)
  from create_plan_fails [OF this, of ref_env 0 7 1 0 heap0]
  show ?thesis by (simp add: malloc_struct_def heap0_def)
qed

section \<open>The builder: what it returns\<close>

lemma twiddle_loop_frame:
  assumes "a \<notin> blk tw (unat n)"
  shows "for_loop 0 n (\<lambda>i c. c(tw + unat i := g i)) c0 a = c0 a"
proof (rule for_loop_rule [where I = "\<lambda>j c. c a = c0 a"])
  show "c0 a = c0 a" ..
next
  fix k :: uint and c
  assume k: "k < n" and inv: "c a = c0 a"
  from k have "tw + unat k \<in> blk tw (unat n)" by (simp add: blk_def word_less_nat_alt)
  with assms have "a \<noteq> tw + unat k" by metis
  with inv show "(c(tw + unat k := g k)) a = c0 a" by simp
qed

text \<open>
  The plan and the heap of a successful build, field by field: the record, the three
  buffers and the table of sub-plan pointers allocated in this order, the two
  sub-plans as the factory returns them (for \<open>P\<close>, then for \<open>Q\<close>, both from \<^verbatim>\<open>t0\<close> to
  \<^verbatim>\<open>t1\<close>, in the stored direction), and the twiddle table allocated last and filled.
\<close>

lemma create_plan_built:
  assumes r: "create_plan_mixed_radix env n x y dir fl h = Inr (q, h')"
    and h5: "h5 = h\<lparr>brk := brk h + 2 * t_len q + unat n,
             live := Subplan_table 2 # TC_array (mr_x q) (unat n) # TC_array (mr_t1 q) (t_len q)
                       # TC_array (mr_t0 q) (t_len q) # Plan_struct # live h\<rparr>"
    and r0: "r0 = fft_create_plan env (mr_P q) (mr_t0 q) (mr_t1 q) (direction q) fl h5"
    and r1: "r1 = fft_create_plan env (mr_Q q) (mr_t0 q) (mr_t1 q) (direction q) fl (snd r0)"
  shows "flags q = fl" and "plan_kind q = LIQUID_FFT_DFT_1D"
    and "plan_method q = LIQUID_FFT_METHOD_MIXED_RADIX" and "num_subplans q = 2"
    and "mr_t0 q = brk h" and "mr_t1 q = brk h + t_len q" and "mr_x q = brk h + 2 * t_len q"
    and "subplans q = [fst r0, fst r1]" and "twiddle q = brk (snd r1)"
    and "h' = (snd r1)\<lparr>brk := brk (snd r1) + unat n,
                    live := TC_array (twiddle q) (unat n) # live (snd r1),
                    cells := for_loop 0 n
                      (\<lambda>i c. c(twiddle q + unat i :=
                         twiddle_value env (if direction q = FFT_FORWARD env then - 1 else 1) i n))
                      (cells (snd r1))\<rparr>"
proof -
  have nz: "find_first_factor n 2 \<noteq> 0" using r by (rule create_plan_Inr_fields)
  let ?Q = "find_first_factor n 2"
  let ?P = "n div ?Q"
  let ?d = "if dir = FFT_FORWARD env then FFT_FORWARD env else FFT_REVERSE env"
  let ?t = "unat (if ?Q > ?P then ?Q else ?P)"
  let ?h5 = "h\<lparr>brk := brk h + ?t + ?t + unat n,
             live := Subplan_table 2 # TC_array (brk h + ?t + ?t) (unat n)
                       # TC_array (brk h + ?t) ?t # TC_array (brk h) ?t # Plan_struct # live h\<rparr>"
  let ?r0 = "fft_create_plan env ?P (brk h) (brk h + ?t) ?d fl ?h5"
  let ?r1 = "fft_create_plan env ?Q (brk h) (brk h + ?t) ?d fl (snd ?r0)"
  let ?tw = "brk (snd ?r1)"
  let ?dd = "if ?d = FFT_FORWARD env then - 1 else 1 :: real"
  from r nz have e: "Inr (\<lparr>nfft = n, buf_x = x, buf_y = y, flags = fl,
                   plan_kind = LIQUID_FFT_DFT_1D, direction = ?d,
                   plan_method = LIQUID_FFT_METHOD_MIXED_RADIX,
                   mr_P = ?P, mr_Q = ?Q, mr_t0 = brk h, mr_t1 = brk h + ?t, mr_x = brk h + ?t + ?t,
                   num_subplans = 2, subplans = [fst ?r0, fst ?r1], twiddle = ?tw\<rparr>,
               (snd ?r1)\<lparr>brk := ?tw + unat n, live := TC_array ?tw (unat n) # live (snd ?r1),
                  cells := for_loop 0 n (\<lambda>i c. c(?tw + unat i := twiddle_value env ?dd i n))
                             (cells (snd ?r1))\<rparr>)
              = (Inr (q, h') :: (fft_error \<times> heap) + ('a fft_plan \<times> heap))"
    by (simp add: create_plan_mixed_radix_def Let_def malloc_TC_def malloc_struct_def
        case_prod_beta)
  then have q: "q = \<lparr>nfft = n, buf_x = x, buf_y = y, flags = fl,
                   plan_kind = LIQUID_FFT_DFT_1D, direction = ?d,
                   plan_method = LIQUID_FFT_METHOD_MIXED_RADIX,
                   mr_P = ?P, mr_Q = ?Q, mr_t0 = brk h, mr_t1 = brk h + ?t, mr_x = brk h + ?t + ?t,
                   num_subplans = 2, subplans = [fst ?r0, fst ?r1], twiddle = ?tw\<rparr>"
    and hh: "h' = (snd ?r1)\<lparr>brk := ?tw + unat n, live := TC_array ?tw (unat n) # live (snd ?r1),
                  cells := for_loop 0 n (\<lambda>i c. c(?tw + unat i := twiddle_value env ?dd i n))
                             (cells (snd ?r1))\<rparr>"
    by simp_all
  have t: "t_len q = ?t" by (simp add: q t_len_def)
  have h5': "h5 = ?h5" unfolding h5 t by (simp add: q)
  have r0': "r0 = ?r0" unfolding r0 h5' by (simp add: q)
  have r1': "r1 = ?r1" unfolding r1 r0' by (simp add: q)
  show "flags q = fl" "plan_kind q = LIQUID_FFT_DFT_1D"
    "plan_method q = LIQUID_FFT_METHOD_MIXED_RADIX" "num_subplans q = 2"
    "mr_t0 q = brk h"
    by (simp_all add: q)
  show "mr_t1 q = brk h + t_len q" "mr_x q = brk h + 2 * t_len q"
    unfolding t by (simp_all add: q)
  show "subplans q = [fst r0, fst r1]" "twiddle q = brk (snd r1)"
    unfolding r0' r1' by (simp_all add: q)
  have tq: "twiddle q = ?tw" and dq: "direction q = ?d" by (simp_all add: q)
  show "h' = (snd r1)\<lparr>brk := brk (snd r1) + unat n,
                    live := TC_array (twiddle q) (unat n) # live (snd r1),
                    cells := for_loop 0 n
                      (\<lambda>i c. c(twiddle q + unat i :=
                         twiddle_value env (if direction q = FFT_FORWARD env then - 1 else 1) i n))
                      (cells (snd r1))\<rparr>"
    unfolding r1' tq dq by (rule hh)
qed

text \<open>
  Claim C3, as amended. The builder fails exactly when no \<open>d\<close> in \<open>[2, N)\<close> divides
  \<open>N\<close>, which is exactly when \<open>N\<close> is prime or below 4. A failure is \<^verbatim>\<open>exit(1)\<close>: the
  process ends with status 1, with the heap as it is at that point, and whatever the
  caller would do after the call is not done; no error value reaches the caller.
  Otherwise the builder returns a fully built plan: every field of the record is set
  (size, buffers, flags, kind, method, direction, \<open>Q\<close> the first factor found,
  \<open>P = N div Q\<close> with \<open>P * Q = N\<close>), the two scratch buffers of \<^verbatim>\<open>t_len\<close> cells, the
  staging buffer of \<open>N\<close> cells and the table of two sub-plan pointers are allocated in
  this order, the two sub-plans are those the factory returns for \<open>P\<close> and then for
  \<open>Q\<close>, from \<^verbatim>\<open>t0\<close> to \<^verbatim>\<open>t1\<close> in the stored direction, and the twiddle table of \<open>N\<close>
  cells is allocated last and filled, every other cell being as the factory left it.
\<close>

theorem builder_fails_iff:
  "(isl (create_plan_mixed_radix env n x y dir fl h) \<longleftrightarrow> (\<forall>d\<in>{2..<unat n}. \<not> d dvd unat n)) \<and>
   ((\<forall>d\<in>{2..<unat n}. \<not> d dvd unat n) \<longleftrightarrow> is_prime (unat n) \<or> unat n < 4) \<and>
   (isl (create_plan_mixed_radix env n x y dir fl h) \<longrightarrow>
      create_plan_mixed_radix env n x y dir fl h
        = Inl (Exit_prime n, malloc_struct Plan_struct h) \<and>
      exit_status (Exit_prime n) = 1 \<and>
      (\<forall>k. and_then (create_plan_mixed_radix env n x y dir fl h) k
             = Inl (Exit_prime n, malloc_struct Plan_struct h))) \<and>
   (\<not> isl (create_plan_mixed_radix env n x y dir fl h) \<longrightarrow>
      (\<exists>q h' h5 r0 r1.
         create_plan_mixed_radix env n x y dir fl h = Inr (q, h') \<and>
         (\<forall>k. and_then (create_plan_mixed_radix env n x y dir fl h) k = k (q, h')) \<and>
         nfft q = n \<and> buf_x q = x \<and> buf_y q = y \<and> flags q = fl \<and>
         plan_kind q = LIQUID_FFT_DFT_1D \<and> plan_method q = LIQUID_FFT_METHOD_MIXED_RADIX \<and>
         direction q = (if dir = FFT_FORWARD env then FFT_FORWARD env else FFT_REVERSE env) \<and>
         mr_Q q = find_first_factor n 2 \<and> 2 \<le> unat (mr_Q q) \<and> unat (mr_Q q) < unat n \<and>
         unat (mr_Q q) dvd unat n \<and>
         mr_P q = n div mr_Q q \<and> unat (mr_P q) * unat (mr_Q q) = unat n \<and>
         mr_t0 q = brk h \<and> mr_t1 q = brk h + t_len q \<and> mr_x q = brk h + 2 * t_len q \<and>
         h5 = h\<lparr>brk := brk h + 2 * t_len q + unat n,
                 live := Subplan_table 2 # TC_array (mr_x q) (unat n)
                           # TC_array (mr_t1 q) (t_len q) # TC_array (mr_t0 q) (t_len q)
                           # Plan_struct # live h\<rparr> \<and>
         r0 = fft_create_plan env (mr_P q) (mr_t0 q) (mr_t1 q) (direction q) fl h5 \<and>
         r1 = fft_create_plan env (mr_Q q) (mr_t0 q) (mr_t1 q) (direction q) fl (snd r0) \<and>
         num_subplans q = 2 \<and> subplans q = [fst r0, fst r1] \<and>
         twiddle q = brk (snd r1) \<and>
         h' = (snd r1)\<lparr>brk := brk (snd r1) + unat n,
                        live := TC_array (twiddle q) (unat n) # live (snd r1),
                        cells := for_loop 0 n
                          (\<lambda>i c. c(twiddle q + unat i :=
                             twiddle_value env (if direction q = FFT_FORWARD env then - 1 else 1) i n))
                          (cells (snd r1))\<rparr> \<and>
         (\<forall>i. i < n \<longrightarrow> cells h' (twiddle q + unat i)
                  = twiddle_value env (if direction q = FFT_FORWARD env then - 1 else 1) i n) \<and>
         (\<forall>a. a \<notin> blk (twiddle q) (unat n) \<longrightarrow> cells h' a = cells (snd r1) a)))"
proof (cases "find_first_factor n 2 = 0")
  case True
  from create_plan_fails [OF True, of env x y dir fl h] True
  show ?thesis
    by (simp add: first_factor_zero_iff [symmetric] no_factor_iff [symmetric]
        exit_status_def and_then_def)
next
  case False
  note p = first_factor_props [OF False]
  from create_plan_succeeds [OF False, of env x y dir fl h]
  obtain q h' where r: "create_plan_mixed_radix env n x y dir fl h = Inr (q, h')" by blast
  note f = create_plan_Inr_fields [OF r]
  define h5 where "h5 = h\<lparr>brk := brk h + 2 * t_len q + unat n,
             live := Subplan_table 2 # TC_array (mr_x q) (unat n) # TC_array (mr_t1 q) (t_len q)
                       # TC_array (mr_t0 q) (t_len q) # Plan_struct # live h\<rparr>"
  define r0 where "r0 = fft_create_plan env (mr_P q) (mr_t0 q) (mr_t1 q) (direction q) fl h5"
  define r1 where "r1 = fft_create_plan env (mr_Q q) (mr_t0 q) (mr_t1 q) (direction q) fl (snd r0)"
  note b = create_plan_built [OF r h5_def r0_def r1_def]
  have k: "\<forall>k. and_then (create_plan_mixed_radix env n x y dir fl h) k = k (q, h')"
    by (simp add: r and_then_def)
  have P: "mr_P q = n div mr_Q q" unfolding f(6) by (rule f(7))
  have fac: "2 \<le> unat (mr_Q q)" "unat (mr_Q q) < unat n" "unat (mr_Q q) dvd unat n"
    "unat (mr_P q) * unat (mr_Q q) = unat n"
    unfolding f(7) unfolding f(6) using p(1,2,3) uint_div_mult_exact(1) [OF p(3)] by simp_all
  have tw: "\<forall>i. i < n \<longrightarrow> cells h' (twiddle q + unat i)
              = twiddle_value env (if direction q = FFT_FORWARD env then - 1 else 1) i n"
    using create_plan_twiddle [OF r] by blast
  have fr: "\<forall>a. a \<notin> blk (twiddle q) (unat n) \<longrightarrow> cells h' a = cells (snd r1) a"
  proof (intro allI impI)
    fix a assume a: "a \<notin> blk (twiddle q) (unat n)"
    have "cells h' a = for_loop 0 n
                      (\<lambda>i c. c(twiddle q + unat i :=
                         twiddle_value env (if direction q = FFT_FORWARD env then - 1 else 1) i n))
                      (cells (snd r1)) a"
      by (subst b(10)) simp
    also have "\<dots> = cells (snd r1) a" using a by (rule twiddle_loop_frame)
    finally show "cells h' a = cells (snd r1) a" .
  qed
  have nd: "\<not> (\<forall>d\<in>{2..<unat n}. \<not> d dvd unat n)"
    using False by (simp add: first_factor_zero_iff)
  have ni: "\<not> isl (create_plan_mixed_radix env n x y dir fl h)" by (simp add: r)
  have ex: "\<exists>q h' h5 r0 r1.
         create_plan_mixed_radix env n x y dir fl h = Inr (q, h') \<and>
         (\<forall>k. and_then (create_plan_mixed_radix env n x y dir fl h) k = k (q, h')) \<and>
         nfft q = n \<and> buf_x q = x \<and> buf_y q = y \<and> flags q = fl \<and>
         plan_kind q = LIQUID_FFT_DFT_1D \<and> plan_method q = LIQUID_FFT_METHOD_MIXED_RADIX \<and>
         direction q = (if dir = FFT_FORWARD env then FFT_FORWARD env else FFT_REVERSE env) \<and>
         mr_Q q = find_first_factor n 2 \<and> 2 \<le> unat (mr_Q q) \<and> unat (mr_Q q) < unat n \<and>
         unat (mr_Q q) dvd unat n \<and>
         mr_P q = n div mr_Q q \<and> unat (mr_P q) * unat (mr_Q q) = unat n \<and>
         mr_t0 q = brk h \<and> mr_t1 q = brk h + t_len q \<and> mr_x q = brk h + 2 * t_len q \<and>
         h5 = h\<lparr>brk := brk h + 2 * t_len q + unat n,
                 live := Subplan_table 2 # TC_array (mr_x q) (unat n)
                           # TC_array (mr_t1 q) (t_len q) # TC_array (mr_t0 q) (t_len q)
                           # Plan_struct # live h\<rparr> \<and>
         r0 = fft_create_plan env (mr_P q) (mr_t0 q) (mr_t1 q) (direction q) fl h5 \<and>
         r1 = fft_create_plan env (mr_Q q) (mr_t0 q) (mr_t1 q) (direction q) fl (snd r0) \<and>
         num_subplans q = 2 \<and> subplans q = [fst r0, fst r1] \<and>
         twiddle q = brk (snd r1) \<and>
         h' = (snd r1)\<lparr>brk := brk (snd r1) + unat n,
                        live := TC_array (twiddle q) (unat n) # live (snd r1),
                        cells := for_loop 0 n
                          (\<lambda>i c. c(twiddle q + unat i :=
                             twiddle_value env (if direction q = FFT_FORWARD env then - 1 else 1) i n))
                          (cells (snd r1))\<rparr> \<and>
         (\<forall>i. i < n \<longrightarrow> cells h' (twiddle q + unat i)
                  = twiddle_value env (if direction q = FFT_FORWARD env then - 1 else 1) i n) \<and>
         (\<forall>a. a \<notin> blk (twiddle q) (unat n) \<longrightarrow> cells h' a = cells (snd r1) a)"
    apply (rule exI [of _ q], rule exI [of _ h'], rule exI [of _ h5], rule exI [of _ r0],
        rule exI [of _ r1])
    apply (intro conjI)
    apply (fact r k f(2-6) b P fac h5_def r0_def r1_def tw fr)+
    done
  from nd ni ex show ?thesis
    by (simp only: no_factor_iff [symmetric] simp_thms)
qed

theorem builder_fails_iff_witness:
  "isl (create_plan_mixed_radix ref_env 7 0 7 1 0 heap0) \<and> is_prime (unat (7::uint)) \<and>
   create_plan_mixed_radix ref_env 7 0 7 1 0 heap0
     = Inl (Exit_prime 7, malloc_struct Plan_struct heap0) \<and>
   exit_status (Exit_prime 7) = 1 \<and>
   \<not> isl (create_plan_mixed_radix ref_env 6 0 6 1 0 heap0) \<and> \<not> is_prime (unat (6::uint)) \<and>
   (\<exists>q h'. create_plan_mixed_radix ref_env 6 0 6 1 0 heap0 = Inr (q, h') \<and>
      nfft q = 6 \<and> buf_x q = 0 \<and> buf_y q = 6 \<and> direction q = 1 \<and>
      mr_Q q = 2 \<and> mr_P q = 3 \<and> mr_t0 q = 100 \<and> mr_t1 q = 103 \<and> mr_x q = 106 \<and>
      num_subplans q = 2 \<and> subplans q = [(3, 100, 103, 1), (2, 100, 103, 1)] \<and>
      twiddle q = 112 \<and> brk h' = 118 \<and>
      live h' = [TC_array 112 6, Subplan_table 2, TC_array 106 6, TC_array 103 3,
                 TC_array 100 3, Plan_struct] \<and>
      cells h' 112 = 1 \<and> cells h' 99 = 0)"
proof -
  have p7: "is_prime (unat (7::uint))"
  proof -
    have "{2..<7::nat} = {2, 3, 4, 5, 6}" by auto
    then show ?thesis by (simp add: is_prime_def)
  qed
  have p6: "\<not> is_prime (unat (6::uint))"
  proof -
    have "(2::nat) \<in> {2..<6}" by simp
    moreover have "(2::nat) dvd 6" by simp
    ultimately have "\<exists>d\<in>{2..<6::nat}. d dvd 6" by (rule bexI [rotated])
    then show ?thesis by (simp add: is_prime_def)
  qed
  note t7 = builder_fails_iff [of ref_env 7 0 7 1 0 heap0]
  note t6 = builder_fails_iff [of ref_env 6 0 6 1 0 heap0]
  from p7 t7 have a: "isl (create_plan_mixed_radix ref_env 7 0 7 1 0 heap0)" by blast
  from t7 have "isl (create_plan_mixed_radix ref_env 7 0 7 1 0 heap0) \<longrightarrow>
      create_plan_mixed_radix ref_env 7 0 7 1 0 heap0
        = Inl (Exit_prime 7, malloc_struct Plan_struct heap0) \<and>
      exit_status (Exit_prime 7) = 1"
    by (elim conjE) blast
  with a have b: "create_plan_mixed_radix ref_env 7 0 7 1 0 heap0
     = Inl (Exit_prime 7, malloc_struct Plan_struct heap0)"
    and st: "exit_status (Exit_prime 7) = 1" by blast+
  from p6 t6 have c: "\<not> isl (create_plan_mixed_radix ref_env 6 0 6 1 0 heap0)"
    by (elim conjE) simp
  note s = t6 [THEN conjunct2, THEN conjunct2, THEN conjunct2, THEN mp, OF c]
  have ff: "find_first_factor 6 2 = 2" by (simp add: find_first_factor.simps)
  from s obtain q h' h5 r0 r1
    where r: "create_plan_mixed_radix ref_env 6 0 6 1 0 heap0 = Inr (q, h')"
      and f: "nfft q = 6" "buf_x q = 0" "buf_y q = 6"
        "direction q = (if 1 = FFT_FORWARD ref_env then FFT_FORWARD ref_env
                        else FFT_REVERSE ref_env)"
        "mr_Q q = find_first_factor 6 2" "mr_P q = 6 div mr_Q q"
        "mr_t0 q = brk heap0" "mr_t1 q = brk heap0 + t_len q" "mr_x q = brk heap0 + 2 * t_len q"
        "num_subplans q = 2"
      and h5: "h5 = heap0\<lparr>brk := brk heap0 + 2 * t_len q + unat (6::uint),
                 live := Subplan_table 2 # TC_array (mr_x q) (unat (6::uint))
                           # TC_array (mr_t1 q) (t_len q) # TC_array (mr_t0 q) (t_len q)
                           # Plan_struct # live heap0\<rparr>"
      and r0: "r0 = fft_create_plan ref_env (mr_P q) (mr_t0 q) (mr_t1 q) (direction q) 0 h5"
      and r1: "r1 = fft_create_plan ref_env (mr_Q q) (mr_t0 q) (mr_t1 q) (direction q) 0 (snd r0)"
      and sp: "subplans q = [fst r0, fst r1]"
      and tw: "twiddle q = brk (snd r1)"
      and h': "h' = (snd r1)\<lparr>brk := brk (snd r1) + unat (6::uint),
                        live := TC_array (twiddle q) (unat (6::uint)) # live (snd r1),
                        cells := for_loop 0 6
                          (\<lambda>i c. c(twiddle q + unat i :=
                             twiddle_value ref_env (if direction q = FFT_FORWARD ref_env then - 1 else 1) i 6))
                          (cells (snd r1))\<rparr>"
      and tv: "\<forall>i. i < 6 \<longrightarrow> cells h' (twiddle q + unat i)
                  = twiddle_value ref_env (if direction q = FFT_FORWARD ref_env then - 1 else 1) i 6"
      and fr: "\<forall>a. a \<notin> blk (twiddle q) (unat (6::uint)) \<longrightarrow> cells h' a = cells (snd r1) a"
    by (elim exE conjE) (rule that)
  have Q: "mr_Q q = 2" using f(5) ff by simp
  have P: "mr_P q = 3" using f(6) Q by simp
  have d: "direction q = 1" using f(4) by (simp add: ref_env_def)
  have tl: "t_len q = 3" by (simp add: t_len_def P Q)
  have b0: "mr_t0 q = 100" "mr_t1 q = 103" "mr_x q = 106"
    using f(7,8,9) tl by (simp_all add: heap0_def)
  have h5': "h5 = heap0\<lparr>brk := 112,
                 live := [Subplan_table 2, TC_array 106 6, TC_array 103 3, TC_array 100 3,
                          Plan_struct]\<rparr>"
    unfolding h5 b0 tl by (simp add: heap0_def)
  have r0': "r0 = ((3, 100, 103, 1), h5)"
    unfolding r0 P b0 d by (simp add: ref_env_def direct_create_plan_def)
  have r1': "r1 = ((2, 100, 103, 1), h5)"
    unfolding r1 r0' Q b0 d by (simp add: ref_env_def direct_create_plan_def)
  have sp': "subplans q = [(3, 100, 103, 1), (2, 100, 103, 1)]"
    unfolding sp r0' r1' by simp
  have tw': "twiddle q = 112" unfolding tw r1' by (simp add: h5')
  have brk': "brk h' = 118" by (subst h') (simp add: r1' h5')
  have live': "live h' = [TC_array 112 6, Subplan_table 2, TC_array 106 6, TC_array 103 3,
                 TC_array 100 3, Plan_struct]"
    by (subst h') (simp add: r1' h5' tw')
  have "(0::uint) < 6" by simp
  with tv have "cells h' (twiddle q + unat (0::uint))
                  = twiddle_value ref_env (if direction q = FFT_FORWARD ref_env then - 1 else 1) 0 6"
    by blast
  then have c0: "cells h' 112 = 1"
    by (simp add: tw' twiddle_value_exact [OF exact_arith_ref_env])
  have "(99::nat) \<notin> blk (twiddle q) (unat (6::uint))" by (simp add: tw' blk_def)
  with fr have "cells h' 99 = cells (snd r1) 99" by blast
  then have c99: "cells h' 99 = 0" by (simp add: r1' h5' heap0_def)
  from a p7 b st c p6 r f(1,2,3) d Q P b0 f(10) sp' tw' brk' live' c0 c99
  show ?thesis by simp
qed

text \<open>
  Claim C3 as stated fails in its last part: on the prime size 7 the outcome of the
  build is \<^verbatim>\<open>exit(1)\<close>, the end of the process with status 1, and a caller that would
  fall back on another size after the failure is not run.
\<close>

theorem builder_prime_size_exits:
  "create_plan_mixed_radix ref_env 7 0 7 1 0 heap0
     = Inl (Exit_prime 7, malloc_struct Plan_struct heap0) \<and>
   exit_status (Exit_prime 7) = 1 \<and>
   and_then (create_plan_mixed_radix ref_env 7 0 7 1 0 heap0)
     (create_plan_mixed_radix ref_env 6 0 6 1 0 \<circ> snd)
     = Inl (Exit_prime 7, malloc_struct Plan_struct heap0)"
proof -
  have "find_first_factor 7 2 = 0" by (simp add: find_first_factor.simps)
  from create_plan_fails [OF this, of ref_env 0 7 1 0 heap0]
  show ?thesis by (simp add: exit_status_def and_then_def)
qed

section \<open>Index arithmetic\<close>

lemma nat_index_bound: "(i::nat) < Q \<Longrightarrow> k < P \<Longrightarrow> Q * k + i < P * Q"
proof -
  assume i: "i < Q" and k: "k < P"
  from i have "Q * k + i < Q * Suc k" by simp
  also from k have "Q * Suc k \<le> Q * P" by (intro mult_le_mono2) simp
  finally show ?thesis by (simp add: mult.commute)
qed

lemma uint_mult_add:
  assumes "unat (a::uint) * unat b + unat c < 2 ^ 32"
  shows "unat (a * b + c) = unat a * unat b + unat c"
proof -
  from assms have "unat a * unat b < 2 ^ LENGTH(32)" by simp
  then have m: "unat (a * b) = unat a * unat b" by (simp only: unat_mult_lem)
  with assms have "unat (a * b) + unat c < 2 ^ LENGTH(32)" by simp
  then have "unat (a * b + c) = unat (a * b) + unat c" by (simp only: unat_add_lem)
  with m show ?thesis by simp
qed

lemma uint_mult:
  assumes "unat (a::uint) * unat b < 2 ^ 32"
  shows "unat (a * b) = unat a * unat b"
proof -
  from assms have "unat a * unat b < 2 ^ LENGTH(32)" by simp
  then show ?thesis by (simp only: unat_mult_lem)
qed

lemma decimate_index_unat:
  assumes "unat P * unat Q = unat (N::uint)" and "i < Q" and "k < P"
  shows "unat (decimate_index Q i k) = unat Q * unat k + unat i"
    and "unat (decimate_index Q i k) < unat N"
proof -
  from assms have b: "unat Q * unat k + unat i < unat N"
    using nat_index_bound [of "unat i" "unat Q" "unat k" "unat P"]
    by (simp add: uint_less_unat)
  moreover have "unat N < 2 ^ 32" using unsigned_less [of N] by simp
  ultimately have "unat Q * unat k + unat i < 2 ^ 32" by simp
  then show "unat (decimate_index Q i k) = unat Q * unat k + unat i"
    unfolding decimate_index_def by (rule uint_mult_add)
  with b show "unat (decimate_index Q i k) < unat N" by simp
qed

lemma column_index_unat:
  assumes "unat P * unat Q = unat (N::uint)" and "i < P" and "k < Q"
  shows "unat (column_index Q i k) = unat Q * unat i + unat k"
    and "unat (column_index Q i k) < unat N"
  using decimate_index_unat [OF assms(1) assms(3) assms(2)]
  by (simp_all add: decimate_index_def column_index_def)

lemma transpose_index_unat:
  assumes "unat P * unat Q = unat (N::uint)" and "i < P" and "k < Q"
  shows "unat (transpose_index P i k) = unat k * unat P + unat i"
    and "unat (transpose_index P i k) < unat N"
proof -
  from assms have b: "unat P * unat k + unat i < unat N"
    using nat_index_bound [of "unat i" "unat P" "unat k" "unat Q"]
    by (simp add: uint_less_unat mult.commute)
  moreover have "unat N < 2 ^ 32" using unsigned_less [of N] by simp
  ultimately have "unat k * unat P + unat i < 2 ^ 32" by (simp add: mult.commute)
  then show "unat (transpose_index P i k) = unat k * unat P + unat i"
    unfolding transpose_index_def by (rule uint_mult_add)
  with b show "unat (transpose_index P i k) < unat N" by (simp add: mult.commute)
qed

lemma twiddle_index_unat:
  assumes "unat P * unat Q = unat (N::uint)" and "i < Q" and "k < P"
  shows "unat (twiddle_index i k) = unat i * unat k"
    and "unat i * unat k \<le> (unat Q - 1) * (unat P - 1)"
    and "(unat Q - 1) * (unat P - 1) < unat N"
proof -
  from assms(2,3) have i: "unat i \<le> unat Q - 1" and k: "unat k \<le> unat P - 1"
    and Q: "0 < unat Q" and P: "0 < unat P"
    by (simp_all add: uint_less_unat)
  from i k show le: "unat i * unat k \<le> (unat Q - 1) * (unat P - 1)" by (rule mult_le_mono)
  have "(unat Q - 1) * (unat P - 1) \<le> (unat Q - 1) * unat P" by simp
  also have "\<dots> < unat Q * unat P" using P Q by simp
  finally show lt: "(unat Q - 1) * (unat P - 1) < unat N"
    using assms(1) by (simp add: mult.commute)
  have "unat N < 2 ^ 32" using unsigned_less [of N] by simp
  with le lt have "unat i * unat k < 2 ^ 32" by simp
  then show "unat (twiddle_index i k) = unat i * unat k"
    unfolding twiddle_index_def by (rule uint_mult)
qed

lemma build6:
  "\<exists>q h'. create_plan_mixed_radix ref_env 6 0 6 1 0 heap0 = Inr (q, h') \<and>
      nfft q = 6 \<and> mr_P q = 3 \<and> mr_Q q = 2"
proof -
  have f: "find_first_factor 6 2 = 2" by (simp add: find_first_factor.simps)
  then have "find_first_factor 6 2 \<noteq> 0" by simp
  from create_plan_succeeds [OF this, of ref_env 0 6 1 0 heap0] f
  show ?thesis by auto
qed

text \<open>
  Claim C8. In pass 1, for loop indices \<open>i < Q\<close> and \<open>k < P\<close> of a plan with
  \<open>P * Q = N\<close>, the \<^verbatim>\<open>unsigned int\<close> product \<^verbatim>\<open>i*k\<close> does not wrap, is at most
  \<open>(Q-1) * (P-1)\<close>, which is below \<open>N\<close>, and therefore is in bounds for the table of
  length \<open>N\<close> and equal to its own residue modulo \<open>N\<close>: the assignment of line 169
  multiplies by \<open>twiddle[(i*k) mod N]\<close>.
\<close>

theorem pass1_twiddle_index_in_bounds:
  assumes "unat (mr_P q) * unat (mr_Q q) = unat (nfft q)"
    and "i < mr_Q q" and "k < mr_P q"
  shows "unat (twiddle_index i k) = unat i * unat k \<and>
         unat i * unat k \<le> (unat (mr_Q q) - 1) * (unat (mr_P q) - 1) \<and>
         (unat (mr_Q q) - 1) * (unat (mr_P q) - 1) < unat (nfft q) \<and>
         unat (twiddle_index i k) < unat (nfft q) \<and>
         unat (twiddle_index i k) = (unat i * unat k) mod unat (nfft q) \<and>
         pass1_scatter q i k s =
           s(mr_x q + (unat (mr_Q q) * unat k + unat i) :=
               s (mr_t1 q + unat k) * s (twiddle q + (unat i * unat k) mod unat (nfft q)))"
proof -
  note t = twiddle_index_unat [OF assms]
  from t have lt: "unat i * unat k < unat (nfft q)" by simp
  then have m: "(unat i * unat k) mod unat (nfft q) = unat i * unat k" by simp
  have "pass1_scatter q i k s =
           s(mr_x q + (unat (mr_Q q) * unat k + unat i) :=
               s (mr_t1 q + unat k) * s (twiddle q + (unat i * unat k) mod unat (nfft q)))"
    unfolding pass1_scatter_def m t(1) decimate_index_unat(1) [OF assms] ..
  with t lt m show ?thesis by simp
qed

theorem pass1_twiddle_index_in_bounds_witness:
  "\<exists>q h'. create_plan_mixed_radix ref_env 6 0 6 1 0 heap0 = Inr (q, h') \<and>
      unat (twiddle_index 1 2) = 2 \<and> unat (twiddle_index 1 2) < unat (nfft q) \<and>
      (unat (mr_Q q) - 1) * (unat (mr_P q) - 1) = 2"
proof -
  from build6 obtain q h' where r: "create_plan_mixed_radix ref_env 6 0 6 1 0 heap0 = Inr (q, h')"
    and f: "nfft q = 6" "mr_P q = 3" "mr_Q q = 2" by blast
  have "unat (mr_P q) * unat (mr_Q q) = unat (nfft q)" "1 < mr_Q q" "2 < mr_P q"
    using f by simp_all
  from pass1_twiddle_index_in_bounds [OF this]
  have "unat (twiddle_index 1 2) < unat (nfft q)" by blast
  moreover have "unat (twiddle_index 1 2) = 2" by (simp add: twiddle_index_def)
  ultimately show ?thesis using r f by auto
qed

lemma transpose_nat_inj:
  assumes "(i::nat) < P" and "i' < P" and "k * P + i = k' * P + i'"
  shows "i = i' \<and> k = k'"
proof -
  from assms(3) have "(k * P + i) mod P = (k' * P + i') mod P" by simp
  with assms(1,2) have i: "i = i'" by simp
  from assms(3) have "(k * P + i) div P = (k' * P + i') div P" by simp
  with assms(1,2) have "k = k'" by simp
  with i show ?thesis ..
qed

lemma transpose_nat_range:
  "{k * P + i | i k. i < P \<and> k < Q} = {..<P * Q::nat}"
proof (intro set_eqI iffI)
  fix m assume "m \<in> {k * P + i | i k. i < P \<and> k < Q}"
  then obtain i k where "m = k * P + i" "i < P" "k < Q" by blast
  then show "m \<in> {..<P * Q}"
    using nat_index_bound [of i P k Q] by (simp add: mult.commute)
next
  fix m assume "m \<in> {..<P * Q}"
  then have m: "m < P * Q" by simp
  then have P: "0 < P" by (cases "P = 0") auto
  have "m = (m div P) * P + m mod P" by simp
  moreover have "m mod P < P" using P by simp
  moreover have "m div P < Q" using m P by (simp add: less_mult_imp_div_less mult.commute)
  ultimately show "m \<in> {k * P + i | i k. i < P \<and> k < Q}" by blast
qed

lemma pass2_trace_inner:
  assumes PQ: "unat P * unat Q = unat (N::uint)" and i: "i < P"
    and tr: "distinct tr" "set tr = {k * unat P + i' | i' k. i' < unat i \<and> k < unat Q}"
      "length tr = unat i * unat Q"
  shows "distinct (for_loop 0 Q (\<lambda>k tr. tr @ [unat (transpose_index P i k)]) tr) \<and>
         set (for_loop 0 Q (\<lambda>k tr. tr @ [unat (transpose_index P i k)]) tr)
           = {k * unat P + i' | i' k. i' < Suc (unat i) \<and> k < unat Q} \<and>
         length (for_loop 0 Q (\<lambda>k tr. tr @ [unat (transpose_index P i k)]) tr)
           = Suc (unat i) * unat Q"
proof -
  let ?I = "\<lambda>m t. distinct t \<and>
     set t = {k * unat P + i' | i' k. i' < unat i \<and> k < unat Q}
               \<union> {k * unat P + unat i | k. k < m} \<and>
     length t = unat i * unat Q + m"
  have iP: "unat i < unat P" using i by (simp add: uint_less_unat)
  have "?I (unat Q) (for_loop 0 Q (\<lambda>k tr. tr @ [unat (transpose_index P i k)]) tr)"
  proof (rule for_loop_rule [where I = ?I])
    show "?I 0 tr" using tr by simp
  next
    fix k t assume k: "k < Q" and inv: "?I (unat k) t"
    have e: "unat (transpose_index P i k) = unat k * unat P + unat i"
      using PQ i k by (rule transpose_index_unat)
    have new: "unat k * unat P + unat i \<notin> set t"
    proof
      assume "unat k * unat P + unat i \<in> set t"
      with inv consider i' k' where "i' < unat i" "unat k * unat P + unat i = k' * unat P + i'"
        | k' where "k' < unat k" "unat k * unat P + unat i = k' * unat P + unat i"
        by auto
      then show False
      proof cases
        case 1
        with iP transpose_nat_inj [of "unat i" "unat P" i' "unat k" k'] show False by simp
      next
        case 2
        with iP transpose_nat_inj [of "unat i" "unat P" "unat i" "unat k" k'] show False by simp
      qed
    qed
    have "{k' * unat P + unat i | k'. k' < Suc (unat k)}
            = insert (unat k * unat P + unat i) {k' * unat P + unat i | k'. k' < unat k}"
      by (auto simp: less_Suc_eq)
    with inv new show "?I (Suc (unat k)) (t @ [unat (transpose_index P i k)])"
      unfolding e by auto
  qed
  moreover have "{k * unat P + i' | i' k. i' < unat i \<and> k < unat Q}
               \<union> {k * unat P + unat i | k. k < unat Q}
             = {k * unat P + i' | i' k. i' < Suc (unat i) \<and> k < unat Q}"
    by (auto simp: less_Suc_eq)
  ultimately show ?thesis by simp
qed

lemma pass2_trace:
  assumes PQ: "unat (mr_P q) * unat (mr_Q q) = unat (nfft q)"
  shows "distinct (pass2_write_trace q)"
    and "set (pass2_write_trace q) = {..<unat (nfft q)}"
    and "length (pass2_write_trace q) = unat (nfft q)"
proof -
  let ?P = "mr_P q" and ?Q = "mr_Q q"
  let ?I = "\<lambda>j t. distinct t \<and>
     set t = {k * unat ?P + i' | i' k. i' < j \<and> k < unat ?Q} \<and> length t = j * unat ?Q"
  have "?I (unat ?P) (pass2_write_trace q)"
    unfolding pass2_write_trace_def
  proof (rule for_loop_rule [where I = ?I])
    show "?I 0 []" by simp
  next
    fix i t assume "i < ?P" and "?I (unat i) t"
    then show "?I (Suc (unat i))
       (for_loop 0 ?Q (\<lambda>k tr. tr @ [unat (transpose_index ?P i k)]) t)"
      using pass2_trace_inner [OF PQ, of i t] by blast
  qed
  then show "distinct (pass2_write_trace q)"
    and "set (pass2_write_trace q) = {..<unat (nfft q)}"
    and "length (pass2_write_trace q) = unat (nfft q)"
    using transpose_nat_range [of "unat ?P" "unat ?Q"] PQ by simp_all
qed

lemma transpose_index_bij:
  assumes PQ: "unat P * unat Q = unat (N::uint)"
  shows "bij_betw (\<lambda>(i, k). unat (transpose_index P i k))
           ({i. i < P} \<times> {k. k < Q}) {..<unat N}"
  unfolding bij_betw_def
proof
  show "inj_on (\<lambda>(i, k). unat (transpose_index P i k)) ({i. i < P} \<times> {k. k < Q})"
  proof (rule inj_onI, clarify)
    fix i k i' k'
    assume a: "i < P" "k < Q" "i' < P" "k' < Q"
      and e: "unat (transpose_index P i k) = unat (transpose_index P i' k')"
    from e a have "unat k * unat P + unat i = unat k' * unat P + unat i'"
      by (simp add: transpose_index_unat(1) [OF PQ])
    with a transpose_nat_inj [of "unat i" "unat P" "unat i'" "unat k" "unat k'"]
    have "unat i = unat i' \<and> unat k = unat k'" by (simp add: uint_less_unat)
    then show "i = i' \<and> k = k'" by (simp add: word_unat_eq_iff)
  qed
next
  show "(\<lambda>(i, k). unat (transpose_index P i k)) ` ({i. i < P} \<times> {k. k < Q}) = {..<unat N}"
  proof (intro set_eqI iffI)
    fix m assume "m \<in> (\<lambda>(i, k). unat (transpose_index P i k)) ` ({i. i < P} \<times> {k. k < Q})"
    then obtain i k where "i < P" "k < Q" "m = unat (transpose_index P i k)" by auto
    then show "m \<in> {..<unat N}" using transpose_index_unat(2) [OF PQ] by simp
  next
    fix m assume "m \<in> {..<unat N}"
    then have "m \<in> {k * unat P + i | i k. i < unat P \<and> k < unat Q}"
      using transpose_nat_range [of "unat P" "unat Q"] PQ by simp
    then obtain i k where m: "m = k * unat P + i" and i: "i < unat P" and k: "k < unat Q"
      by blast
    have wi: "unat (of_nat i :: uint) = i" and wk: "unat (of_nat k :: uint) = k"
    proof -
      have "unat P < 2 ^ 32" "unat Q < 2 ^ 32"
        using unsigned_less [of P] unsigned_less [of Q] by simp_all
      with i k have "i < 2 ^ 32" "k < 2 ^ 32" by simp_all
      then show "unat (of_nat i :: uint) = i" "unat (of_nat k :: uint) = k"
        by (simp_all add: unat_of_nat)
    qed
    then have lt: "(of_nat i :: uint) < P" "(of_nat k :: uint) < Q"
      using i k by (simp_all add: uint_less_unat)
    then have "unat (transpose_index P (of_nat i) (of_nat k)) = m"
      using transpose_index_unat(1) [OF PQ] wi wk m by simp
    with lt show "m \<in> (\<lambda>(i, k). unat (transpose_index P i k)) ` ({i. i < P} \<times> {k. k < Q})"
      by force
  qed
qed

section \<open>What the executor leaves alone\<close>

lemma t_len_ge: "unat (mr_P q) \<le> t_len q" "unat (mr_Q q) \<le> t_len q"
  by (auto simp: t_len_def uint_less_unat)

lemma blk_iff: "a \<in> blk p n \<longleftrightarrow> p \<le> a \<and> a < p + n"
  by (simp add: blk_def)

lemma blk_offset: "i < n \<Longrightarrow> p + i \<in> blk p n"
  by (simp add: blk_def)

lemma blk_mono: "n \<le> m \<Longrightarrow> blk p n \<subseteq> blk p m"
  by (auto simp: blk_def)

lemma for_loop_frame:
  assumes "\<And>k s. k < n \<Longrightarrow> \<forall>a. a \<notin> W \<longrightarrow> body k s a = s a"
  shows "\<forall>a. a \<notin> W \<longrightarrow> for_loop 0 n body s a = (s::store) a"
  by (rule for_loop_rule [where I = "\<lambda>j s'. \<forall>a. a \<notin> W \<longrightarrow> s' a = s a"])
     (use assms in auto)

lemma memmove_frame: "a \<notin> blk dst n \<Longrightarrow> memmove dst src n s a = s a"
  by (auto simp: memmove_def blk_def)

lemma memmove_copy: "i < n \<Longrightarrow> memmove dst src n s (dst + i) = s (src + i)"
  by (simp add: memmove_def)

lemma pass1_body_frame:
  assumes PQ: "unat (mr_P q) * unat (mr_Q q) = unat (nfft q)"
    and sub: "subplans_frame env q priv" and i: "i < mr_Q q"
  shows "\<forall>a. a \<notin> exec_writes q priv \<longrightarrow> pass1_body env q i s a = s a"
proof (intro allI impI)
  fix a assume a: "a \<notin> exec_writes q priv"
  let ?sa = "for_loop 0 (mr_P q) (pass1_gather q i) s"
  let ?sb = "fft_execute env (subplans q ! 0) ?sa"
  have g: "\<forall>a. a \<notin> exec_writes q priv \<longrightarrow> ?sa a = s a"
  proof (rule for_loop_frame)
    fix k s' assume "k < mr_P q"
    then have "unat k < t_len q" using t_len_ge(1) [of q] by (simp add: uint_less_unat)
    then have "mr_t0 q + unat k \<in> exec_writes q priv"
      by (simp add: exec_writes_def blk_offset)
    then show "\<forall>a. a \<notin> exec_writes q priv \<longrightarrow> pass1_gather q i k s' a = s' a"
      by (auto simp: pass1_gather_def)
  qed
  have "a \<notin> priv \<union> blk (mr_t1 q) (unat (mr_P q)) \<union> blk (mr_t0 q) (unat (mr_P q))"
    using a blk_mono [OF t_len_ge(1) [of q]] by (auto simp: exec_writes_def)
  with sub have e: "?sb a = ?sa a"
    by (simp add: subplans_frame_def subplan_frame_def)
  have "\<forall>a. a \<notin> exec_writes q priv \<longrightarrow> for_loop 0 (mr_P q) (pass1_scatter q i) ?sb a = ?sb a"
  proof (rule for_loop_frame)
    fix k s' assume k: "k < mr_P q"
    have "unat (decimate_index (mr_Q q) i k) < unat (nfft q)"
      using PQ i k by (rule decimate_index_unat)
    then have "mr_x q + unat (decimate_index (mr_Q q) i k) \<in> exec_writes q priv"
      by (simp add: exec_writes_def blk_offset)
    then show "\<forall>a. a \<notin> exec_writes q priv \<longrightarrow> pass1_scatter q i k s' a = s' a"
      by (auto simp: pass1_scatter_def)
  qed
  with a e g show "pass1_body env q i s a = s a"
    by (simp add: pass1_body_def Let_def)
qed

lemma pass2_body_frame:
  assumes PQ: "unat (mr_P q) * unat (mr_Q q) = unat (nfft q)"
    and sub: "subplans_frame env q priv" and i: "i < mr_P q"
  shows "\<forall>a. a \<notin> exec_writes q priv \<longrightarrow> pass2_body env q i s a = s a"
proof (intro allI impI)
  fix a assume a: "a \<notin> exec_writes q priv"
  let ?sa = "for_loop 0 (mr_Q q) (pass2_gather q i) s"
  let ?sb = "fft_execute env (subplans q ! 1) ?sa"
  have g: "\<forall>a. a \<notin> exec_writes q priv \<longrightarrow> ?sa a = s a"
  proof (rule for_loop_frame)
    fix k s' assume "k < mr_Q q"
    then have "unat k < t_len q" using t_len_ge(2) [of q] by (simp add: uint_less_unat)
    then have "mr_t0 q + unat k \<in> exec_writes q priv"
      by (simp add: exec_writes_def blk_offset)
    then show "\<forall>a. a \<notin> exec_writes q priv \<longrightarrow> pass2_gather q i k s' a = s' a"
      by (auto simp: pass2_gather_def)
  qed
  have "a \<notin> priv \<union> blk (mr_t1 q) (unat (mr_Q q)) \<union> blk (mr_t0 q) (unat (mr_Q q))"
    using a blk_mono [OF t_len_ge(2) [of q]] by (auto simp: exec_writes_def)
  with sub have e: "?sb a = ?sa a"
    by (simp add: subplans_frame_def subplan_frame_def)
  have "\<forall>a. a \<notin> exec_writes q priv \<longrightarrow> for_loop 0 (mr_Q q) (pass2_transpose q i) ?sb a = ?sb a"
  proof (rule for_loop_frame)
    fix k s' assume k: "k < mr_Q q"
    have "unat (transpose_index (mr_P q) i k) < unat (nfft q)"
      using PQ i k by (rule transpose_index_unat)
    then have "buf_y q + unat (transpose_index (mr_P q) i k) \<in> exec_writes q priv"
      by (simp add: exec_writes_def blk_offset)
    then show "\<forall>a. a \<notin> exec_writes q priv \<longrightarrow> pass2_transpose q i k s' a = s' a"
      by (auto simp: pass2_transpose_def)
  qed
  with a e g show "pass2_body env q i s a = s a"
    by (simp add: pass2_body_def Let_def)
qed

lemma execute_frame_aux:
  assumes PQ: "unat (mr_P q) * unat (mr_Q q) = unat (nfft q)"
    and sub: "subplans_frame env q priv" and a: "a \<notin> exec_writes q priv"
  shows "execute_mixed_radix env q s a = s a"
proof -
  let ?s1 = "memmove (mr_x q) (buf_x q) (unat (nfft q)) s"
  let ?s2 = "for_loop 0 (mr_Q q) (pass1_body env q) ?s1"
  have "?s1 a = s a" using a by (intro memmove_frame) (simp add: exec_writes_def)
  moreover have "\<forall>a. a \<notin> exec_writes q priv \<longrightarrow> ?s2 a = ?s1 a"
    by (rule for_loop_frame) (rule pass1_body_frame [OF PQ sub])
  moreover have "\<forall>a. a \<notin> exec_writes q priv \<longrightarrow>
      for_loop 0 (mr_P q) (pass2_body env q) ?s2 a = ?s2 a"
    by (rule for_loop_frame) (rule pass2_body_frame [OF PQ sub])
  ultimately show ?thesis using a by (simp add: execute_mixed_radix_def Let_def)
qed

text \<open>
  Claim C7. For a plan with \<open>P * Q = N\<close> whose sub-plans write only to their output,
  their input and the cells they own, one run of the executor changes no cell outside
  the staging buffer, the two scratch buffers, the output buffer and the sub-plans'
  cells. Hence, when the input buffer is disjoint from those, its \<open>N\<close> cells are
  the same after the run as before, and likewise the \<open>N\<close> cells of the twiddle table.
  The plan record is an argument the executor only reads: its result is the store.
\<close>

theorem execute_frame:
  assumes "unat (mr_P q) * unat (mr_Q q) = unat (nfft q)"
    and "subplans_frame env q priv"
  shows "(\<forall>a. a \<notin> exec_writes q priv \<longrightarrow> execute_mixed_radix env q s a = s a) \<and>
         (blk (buf_x q) (unat (nfft q)) \<inter> exec_writes q priv = {} \<longrightarrow>
            (\<forall>i<unat (nfft q). execute_mixed_radix env q s (buf_x q + i) = s (buf_x q + i))) \<and>
         (blk (twiddle q) (unat (nfft q)) \<inter> exec_writes q priv = {} \<longrightarrow>
            (\<forall>i<unat (nfft q). execute_mixed_radix env q s (twiddle q + i) = s (twiddle q + i)))"
proof -
  note f = execute_frame_aux [OF assms]
  have "execute_mixed_radix env q s (p + i) = s (p + i)"
    if "blk p (unat (nfft q)) \<inter> exec_writes q priv = {}" "i < unat (nfft q)" for p i
  proof -
    from that(2) have "p + i \<in> blk p (unat (nfft q))" by (rule blk_offset)
    with that(1) have "p + i \<notin> exec_writes q priv" by blast
    then show ?thesis by (rule f)
  qed
  with f show ?thesis by blast
qed

section \<open>Plans built in the reference environment\<close>

lemma direct_execute_frame:
  "subplan_frame (direct_execute (n, src, dst, dir)) (unat n) src dst priv"
  by (auto simp: subplan_frame_def direct_execute_def blk_def)

lemma direct_execute_dft:
  "subplan_dft (direct_execute (n, src, dst, dir)) (if dir = 1 then - 1 else 1) (unat n)
     src dst (\<lambda>s. True)"
  by (simp add: subplan_dft_def direct_execute_def)

lemma ref_build:
  assumes "create_plan_mixed_radix ref_env n x y dir fl h = Inr (q, h')"
  shows "mr_t0 q = brk h" and "mr_t1 q = brk h + t_len q"
    and "mr_x q = brk h + 2 * t_len q" and "twiddle q = brk h + 2 * t_len q + unat n"
    and "subplans q = [(mr_P q, mr_t0 q, mr_t1 q, direction q),
                       (mr_Q q, mr_t0 q, mr_t1 q, direction q)]"
proof -
  have nz: "find_first_factor n 2 \<noteq> 0" using assms by (rule create_plan_Inr_fields)
  with assms show "mr_t0 q = brk h" and "mr_t1 q = brk h + t_len q"
    and "mr_x q = brk h + 2 * t_len q" and "twiddle q = brk h + 2 * t_len q + unat n"
    and "subplans q = [(mr_P q, mr_t0 q, mr_t1 q, direction q),
                       (mr_Q q, mr_t0 q, mr_t1 q, direction q)]"
    by (auto simp: create_plan_mixed_radix_def Let_def ref_env_def direct_create_plan_def
        malloc_TC_def malloc_struct_def t_len_def split: prod.splits)
qed

lemma ref_build_frame:
  assumes "create_plan_mixed_radix ref_env n x y dir fl h = Inr (q, h')"
  shows "subplans_frame ref_env q {}"
  using direct_execute_frame
  by (simp add: subplans_frame_def ref_build(5) [OF assms] ref_env_def)

lemma ref_build_layout:
  assumes "create_plan_mixed_radix ref_env n x y dir fl h = Inr (q, h')"
    and "y + unat n \<le> brk h"
  shows "plan_layout q {}"
proof -
  note f = create_plan_Inr_fields [OF assms(1)]
  have "unat (mr_P q) * unat (mr_Q q) = unat (nfft q)"
    unfolding f using first_factor_props(3) [OF f(1)] by (rule uint_div_mult_exact)
  then show ?thesis
    using assms(2) f(2,4)
    by (auto simp: plan_layout_def ref_build [OF assms(1)] blk_def)
qed

theorem execute_frame_witness:
  "\<exists>q h'. create_plan_mixed_radix ref_env 6 0 6 1 0 heap0 = Inr (q, h') \<and>
      buf_x q = 0 \<and> twiddle q = 112 \<and>
      execute_mixed_radix ref_env q (cells h') 3 = cells h' 3 \<and>
      execute_mixed_radix ref_env q (cells h') 113 = cells h' 113"
proof -
  from build6 obtain q h' where r: "create_plan_mixed_radix ref_env 6 0 6 1 0 heap0 = Inr (q, h')"
    and f: "nfft q = 6" "mr_P q = 3" "mr_Q q = 2" by blast
  note g = create_plan_Inr_fields [OF r] ref_build [OF r]
  have tl: "t_len q = 3" using f by (simp add: t_len_def)
  have b: "brk heap0 = 100" by (simp add: heap0_def)
  have x: "buf_x q = 0" and tw: "twiddle q = 112" using g tl b by simp_all
  have w: "exec_writes q {} = blk 106 6 \<union> blk 100 3 \<union> blk 103 3 \<union> blk 6 6"
    using g tl b f by (simp add: exec_writes_def)
  have PQ: "unat (mr_P q) * unat (mr_Q q) = unat (nfft q)" using f by simp
  note t = execute_frame [OF PQ ref_build_frame [OF r], of "cells h'"]
  have "blk (buf_x q) (unat (nfft q)) \<inter> exec_writes q {} = {}"
    unfolding w x f by (auto simp: blk_def)
  with t have "\<forall>i<unat (nfft q).
      execute_mixed_radix ref_env q (cells h') (buf_x q + i) = cells h' (buf_x q + i)"
    by blast
  moreover have i3: "(3::nat) < unat (nfft q)" and i1: "(1::nat) < unat (nfft q)"
    using f by simp_all
  ultimately have "execute_mixed_radix ref_env q (cells h') (buf_x q + 3)
      = cells h' (buf_x q + 3)"
    by blast
  moreover have "blk (twiddle q) (unat (nfft q)) \<inter> exec_writes q {} = {}"
    unfolding w tw f by (auto simp: blk_def)
  with t have "\<forall>i<unat (nfft q).
      execute_mixed_radix ref_env q (cells h') (twiddle q + i) = cells h' (twiddle q + i)"
    by blast
  with i1 have "execute_mixed_radix ref_env q (cells h') (twiddle q + 1)
      = cells h' (twiddle q + 1)"
    by blast
  ultimately show ?thesis using r x tw by auto
qed

section \<open>The direct transform and roots of unity\<close>

lemma unity_root_power:
  "exp (\<i> * complex_of_real d * 2 * complex_of_real pi * of_nat j / of_nat n)
     = unity_root d n ^ j"
proof -
  have "\<i> * complex_of_real d * 2 * complex_of_real pi * of_nat j / of_nat n
          = of_nat j * (\<i> * complex_of_real d * 2 * complex_of_real pi / of_nat n)"
    by simp
  then show ?thesis by (simp only: exp_of_nat_mult unity_root_def)
qed

lemma dft_unity_root: "dft d n f m = (\<Sum>j<n. f j * unity_root d n ^ (m * j))"
  by (simp only: dft_def unity_root_power)

lemma unity_root_full:
  assumes "d = 1 \<or> d = - 1" and "0 < n"
  shows "unity_root d n ^ n = 1"
proof -
  have "unity_root d n ^ n = exp (of_nat n * (\<i> * complex_of_real d * 2 * complex_of_real pi / of_nat n))"
    by (simp only: exp_of_nat_mult unity_root_def)
  also have "of_nat n * (\<i> * complex_of_real d * 2 * complex_of_real pi / of_nat n)
               = complex_of_real d * (2 * complex_of_real pi * \<i>)"
    using assms(2) by simp
  also have "exp (complex_of_real d * (2 * complex_of_real pi * \<i>)) = 1"
    using assms(1)
  proof
    assume "d = 1" then show ?thesis by (simp add: exp_two_pi_i)
  next
    assume "d = - 1"
    then have "exp (complex_of_real d * (2 * complex_of_real pi * \<i>))
                 = inverse (exp (2 * complex_of_real pi * \<i>))"
      by (simp add: exp_minus)
    then show ?thesis by (simp add: exp_two_pi_i)
  qed
  finally show ?thesis .
qed

lemma unity_root_factor:
  assumes "0 < Q"
  shows "unity_root d P = unity_root d (P * Q) ^ Q"
proof -
  have "unity_root d (P * Q) ^ Q
          = exp (of_nat Q * (\<i> * complex_of_real d * 2 * complex_of_real pi / of_nat (P * Q)))"
    by (simp only: exp_of_nat_mult unity_root_def)
  also have "of_nat Q * (\<i> * complex_of_real d * 2 * complex_of_real pi / of_nat (P * Q))
               = \<i> * complex_of_real d * 2 * complex_of_real pi / of_nat P"
    using assms by simp
  finally show ?thesis by (simp only: unity_root_def)
qed

lemma sum_regroup:
  "(\<Sum>n<P * Q. g n) = (\<Sum>m<P. \<Sum>l<Q. g (Q * m + l :: nat) :: complex)"
proof -
  have "(\<Sum>l<Q. g (Q * m + l)) = sum g {m * Q..<m * Q + Q}" for m
  proof -
    have "sum g {0 + m * Q..<Q + m * Q} = (\<Sum>l\<in>{0..<Q}. g (l + m * Q))"
      by (rule sum.shift_bounds_nat_ivl)
    then show ?thesis by (simp add: atLeast0LessThan add.commute mult.commute)
  qed
  then have "(\<Sum>m<P. \<Sum>l<Q. g (Q * m + l)) = (\<Sum>m<P. sum g {m * Q..<m * Q + Q})"
    by simp
  also have "\<dots> = sum g {..<P * Q}" by (rule sum.nat_group)
  finally show ?thesis by simp
qed

lemma cooley_tukey:
  assumes d: "d = 1 \<or> d = - 1" and P: "0 < P" and Q: "0 < Q"
  shows "dft d Q (\<lambda>l. dft d P (\<lambda>m. f (Q * m + l)) i * unity_root d (P * Q) ^ (l * i)) k
           = dft d (P * Q) f (k * P + i)"
proof -
  let ?w = "unity_root d (P * Q)"
  have wN: "?w ^ (P * Q) = 1" using d P Q by (intro unity_root_full) simp_all
  have wP: "unity_root d P = ?w ^ Q" using Q by (rule unity_root_factor)
  have wQ: "unity_root d Q = ?w ^ P"
    using unity_root_factor [OF P, of d Q] by (simp add: mult.commute)
  have expo: "f (Q * m + l) * (?w ^ Q) ^ (i * m) * ?w ^ (l * i) * (?w ^ P) ^ (k * l)
                = f (Q * m + l) * ?w ^ ((k * P + i) * (Q * m + l))" for m l
  proof -
    have "(k * P + i) * (Q * m + l) = (P * Q) * (k * m) + (Q * (i * m) + l * i + P * (k * l))"
      by (simp add: algebra_simps)
    then have "?w ^ ((k * P + i) * (Q * m + l))
                 = (?w ^ (P * Q)) ^ (k * m) * ((?w ^ Q) ^ (i * m) * ?w ^ (l * i) * (?w ^ P) ^ (k * l))"
      by (simp only: power_add power_mult)
    with wN show ?thesis by simp
  qed
  have "dft d Q (\<lambda>l. dft d P (\<lambda>m. f (Q * m + l)) i * ?w ^ (l * i)) k
          = (\<Sum>l<Q. (\<Sum>m<P. f (Q * m + l) * (?w ^ Q) ^ (i * m)) * ?w ^ (l * i) * (?w ^ P) ^ (k * l))"
    by (simp only: dft_unity_root wP wQ)
  also have "\<dots> = (\<Sum>l<Q. \<Sum>m<P. f (Q * m + l) * (?w ^ Q) ^ (i * m) * ?w ^ (l * i) * (?w ^ P) ^ (k * l))"
    by (simp only: sum_distrib_right)
  also have "\<dots> = (\<Sum>l<Q. \<Sum>m<P. f (Q * m + l) * ?w ^ ((k * P + i) * (Q * m + l)))"
    by (simp only: expo)
  also have "\<dots> = (\<Sum>m<P. \<Sum>l<Q. f (Q * m + l) * ?w ^ ((k * P + i) * (Q * m + l)))"
    by (rule sum.swap)
  also have "\<dots> = (\<Sum>n<P * Q. f n * ?w ^ ((k * P + i) * n))"
    by (rule sum_regroup [symmetric])
  finally show ?thesis by (simp only: dft_unity_root)
qed

section \<open>The inner loops\<close>

text \<open>
  Each inner loop assigns one cell per turn, at pairwise different places, from cells
  that no turn of the loop writes. \<open>update_loop\<close> gives the store after such a loop;
  the four loops of the executor are instances.
\<close>

lemma update_loop:
  fixes s :: store
  assumes wr: "\<And>k s. k < n \<Longrightarrow> body k s = s(w k := v k s)"
    and inj: "\<And>k k'. k < n \<Longrightarrow> k' < n \<Longrightarrow> w k = w k' \<Longrightarrow> k = k'"
    and rd: "\<And>k s'. k < n \<Longrightarrow> (\<forall>a. (\<forall>k<n. a \<noteq> w k) \<longrightarrow> s' a = s a) \<Longrightarrow> v k s' = v k s"
  shows "(\<forall>k<n. for_loop 0 n body s (w k) = v k s) \<and>
         (\<forall>a. (\<forall>k<n. a \<noteq> w k) \<longrightarrow> for_loop 0 n body s a = s a)"
proof -
  let ?I = "\<lambda>m s'. (\<forall>k. k < n \<and> unat k < m \<longrightarrow> s' (w k) = v k s) \<and>
                    (\<forall>a. (\<forall>k. k < n \<and> unat k < m \<longrightarrow> a \<noteq> w k) \<longrightarrow> s' a = s a)"
  have "?I (unat n) (for_loop 0 n body s)"
  proof (rule for_loop_rule [where I = ?I])
    show "?I 0 s" by simp
  next
    fix k s' assume k: "k < n" and I: "?I (unat k) s'"
    from I have I1: "\<And>k'. k' < n \<Longrightarrow> unat k' < unat k \<Longrightarrow> s' (w k') = v k' s"
      and I2: "\<And>a. (\<forall>k'. k' < n \<and> unat k' < unat k \<longrightarrow> a \<noteq> w k') \<Longrightarrow> s' a = s a"
      by blast+
    have "\<forall>a. (\<forall>k<n. a \<noteq> w k) \<longrightarrow> s' a = s a" using I2 by blast
    with k have v: "v k s' = v k s" by (rule rd)
    have b: "body k s' = s'(w k := v k s)" using wr [OF k] v by simp
    have A: "(s'(w k := v k s)) (w k') = v k' s" if "k' < n" "unat k' < Suc (unat k)" for k'
    proof (cases "k' = k")
      case True then show ?thesis by simp
    next
      case False
      have "unat k' \<noteq> unat k"
      proof
        assume "unat k' = unat k"
        then have "k' = k" by (rule word_unat_eq_iff [THEN iffD2])
        with False show False ..
      qed
      with that(2) have lt: "unat k' < unat k" by simp
      from False inj [OF that(1) k] have "w k' \<noteq> w k" by blast
      with I1 [OF that(1) lt] show ?thesis by simp
    qed
    have B: "(s'(w k := v k s)) a = s a"
      if "\<forall>k'. k' < n \<and> unat k' < Suc (unat k) \<longrightarrow> a \<noteq> w k'" for a
    proof -
      from that k have "a \<noteq> w k" by simp
      moreover from that have "\<forall>k'. k' < n \<and> unat k' < unat k \<longrightarrow> a \<noteq> w k'" by simp
      then have "s' a = s a" by (rule I2)
      ultimately show ?thesis by simp
    qed
    from A B show "?I (Suc (unat k)) (body k s')" unfolding b by blast
  qed
  then have R1: "\<And>k. k < n \<Longrightarrow> unat k < unat n \<Longrightarrow> for_loop 0 n body s (w k) = v k s"
    and R2: "\<And>a. (\<forall>k. k < n \<and> unat k < unat n \<longrightarrow> a \<noteq> w k) \<Longrightarrow> for_loop 0 n body s a = s a"
    by blast+
  have "for_loop 0 n body s (w k) = v k s" if "k < n" for k
    using that R1 [OF that] by (simp only: uint_less_unat)
  moreover have "for_loop 0 n body s a = s a" if "\<forall>k<n. a \<noteq> w k" for a
    using that by (intro R2) blast
  ultimately show ?thesis by blast
qed

lemma uint_of_nat_less:
  assumes "k < unat (n::uint)"
  shows "unat (of_nat k :: uint) = k" and "(of_nat k :: uint) < n"
proof -
  have "unat n < 2 ^ 32" using unsigned_less [of n] by simp
  with assms have "k < 2 ^ 32" by simp
  then show "unat (of_nat k :: uint) = k" by (simp add: unat_of_nat)
  with assms show "(of_nat k :: uint) < n" by (simp add: uint_less_unat)
qed

lemma uint_eq_unat: "unat (k::uint) = unat k' \<Longrightarrow> k = k'"
  by (rule word_unat_eq_iff [THEN iffD2])

lemma pass1_gather_loop:
  assumes L: "plan_layout q priv" and i: "i < mr_Q q"
  shows "\<forall>k<unat (mr_P q). for_loop 0 (mr_P q) (pass1_gather q i) s (mr_t0 q + k)
           = s (mr_x q + (unat (mr_Q q) * k + unat i))"
    and "\<forall>a. a \<notin> blk (mr_t0 q) (t_len q) \<longrightarrow> for_loop 0 (mr_P q) (pass1_gather q i) s a = s a"
proof -
  from L have PQ: "unat (mr_P q) * unat (mr_Q q) = unat (nfft q)"
    and X0: "blk (mr_x q) (unat (nfft q)) \<inter> blk (mr_t0 q) (t_len q) = {}"
    by (simp_all add: plan_layout_def)
  let ?w = "\<lambda>k::uint. mr_t0 q + unat k"
  let ?v = "\<lambda>k s. s (mr_x q + unat (decimate_index (mr_Q q) i k))"
  have W: "?w k \<in> blk (mr_t0 q) (t_len q)" if "k < mr_P q" for k
  proof -
    from that have "unat k < t_len q" using t_len_ge(1) [of q] by (simp add: uint_less_unat)
    then show ?thesis by (rule blk_offset)
  qed
  have u: "(\<forall>k<mr_P q. for_loop 0 (mr_P q) (pass1_gather q i) s (?w k) = ?v k s) \<and>
        (\<forall>a. (\<forall>k<mr_P q. a \<noteq> ?w k) \<longrightarrow> for_loop 0 (mr_P q) (pass1_gather q i) s a = s a)"
  proof (rule update_loop)
    fix k s' assume "k < mr_P q"
    show "pass1_gather q i k s' = s'(?w k := ?v k s')" by (simp add: pass1_gather_def)
  next
    fix k k' :: uint assume "?w k = ?w k'"
    then have "unat k = unat k'" by simp
    then show "k = k'" by (rule uint_eq_unat)
  next
    fix k s' assume k: "k < mr_P q" and a: "\<forall>a. (\<forall>k<mr_P q. a \<noteq> ?w k) \<longrightarrow> s' a = s a"
    have "unat (decimate_index (mr_Q q) i k) < unat (nfft q)"
      using PQ i k by (rule decimate_index_unat)
    then have "mr_x q + unat (decimate_index (mr_Q q) i k) \<in> blk (mr_x q) (unat (nfft q))"
      by (rule blk_offset)
    with X0 have n0: "mr_x q + unat (decimate_index (mr_Q q) i k) \<notin> blk (mr_t0 q) (t_len q)"
      by (simp only: disjoint_iff) simp
    have "mr_x q + unat (decimate_index (mr_Q q) i k) \<noteq> ?w k'" if "k' < mr_P q" for k'
      using W [OF that] n0 by metis
    with a show "?v k s' = ?v k s" by simp
  qed
  from u have u1: "\<And>k. k < mr_P q \<Longrightarrow>
        for_loop 0 (mr_P q) (pass1_gather q i) s (?w k) = ?v k s"
    and u2: "\<And>a. \<forall>k<mr_P q. a \<noteq> ?w k \<Longrightarrow>
        for_loop 0 (mr_P q) (pass1_gather q i) s a = s a"
    by simp_all
  show "\<forall>k<unat (mr_P q). for_loop 0 (mr_P q) (pass1_gather q i) s (mr_t0 q + k)
           = s (mr_x q + (unat (mr_Q q) * k + unat i))"
  proof (intro allI impI)
    fix k assume "k < unat (mr_P q)"
    note c = uint_of_nat_less [OF this]
    from c(2) have "for_loop 0 (mr_P q) (pass1_gather q i) s (?w (of_nat k :: uint)) = ?v (of_nat k) s"
      by (rule u1)
    then show "for_loop 0 (mr_P q) (pass1_gather q i) s (mr_t0 q + k)
           = s (mr_x q + (unat (mr_Q q) * k + unat i))"
      by (simp add: c(1) decimate_index_unat(1) [OF PQ i c(2)])
  qed
  show "\<forall>a. a \<notin> blk (mr_t0 q) (t_len q) \<longrightarrow>
      for_loop 0 (mr_P q) (pass1_gather q i) s a = s a"
  proof (intro allI impI)
    fix a assume "a \<notin> blk (mr_t0 q) (t_len q)"
    with W have "\<forall>k<mr_P q. a \<noteq> ?w k" by metis
    then show "for_loop 0 (mr_P q) (pass1_gather q i) s a = s a"
      by (rule u2)
  qed
qed

lemma pass2_gather_loop:
  assumes L: "plan_layout q priv" and i: "i < mr_P q"
  shows "\<forall>k<unat (mr_Q q). for_loop 0 (mr_Q q) (pass2_gather q i) s (mr_t0 q + k)
           = s (mr_x q + (unat (mr_Q q) * unat i + k))"
    and "\<forall>a. a \<notin> blk (mr_t0 q) (t_len q) \<longrightarrow> for_loop 0 (mr_Q q) (pass2_gather q i) s a = s a"
proof -
  from L have PQ: "unat (mr_P q) * unat (mr_Q q) = unat (nfft q)"
    and X0: "blk (mr_x q) (unat (nfft q)) \<inter> blk (mr_t0 q) (t_len q) = {}"
    by (simp_all add: plan_layout_def)
  let ?w = "\<lambda>k::uint. mr_t0 q + unat k"
  let ?v = "\<lambda>(k::uint) (s::store). s (mr_x q + unat (column_index (mr_Q q) i k))"
  have W: "?w k \<in> blk (mr_t0 q) (t_len q)" if "k < mr_Q q" for k
  proof -
    from that have "unat k < t_len q" using t_len_ge(2) [of q] by (simp add: uint_less_unat)
    then show ?thesis by (rule blk_offset)
  qed
  have u: "(\<forall>k<mr_Q q. for_loop 0 (mr_Q q) (pass2_gather q i) s (?w k) = ?v k s) \<and>
        (\<forall>a. (\<forall>k<mr_Q q. a \<noteq> ?w k) \<longrightarrow> for_loop 0 (mr_Q q) (pass2_gather q i) s a = s a)"
  proof (rule update_loop)
    fix k s' assume "k < mr_Q q"
    show "pass2_gather q i k s' = s'(?w k := ?v k s')" by (simp add: pass2_gather_def)
  next
    fix k k' :: uint assume "?w k = ?w k'"
    then have "unat k = unat k'" by simp
    then show "k = k'" by (rule uint_eq_unat)
  next
    fix k s' assume k: "k < mr_Q q" and a: "\<forall>a. (\<forall>k<mr_Q q. a \<noteq> ?w k) \<longrightarrow> s' a = s a"
    have "unat (column_index (mr_Q q) i k) < unat (nfft q)"
      using PQ i k by (rule column_index_unat)
    then have "mr_x q + unat (column_index (mr_Q q) i k) \<in> blk (mr_x q) (unat (nfft q))"
      by (rule blk_offset)
    with X0 have n0: "mr_x q + unat (column_index (mr_Q q) i k) \<notin> blk (mr_t0 q) (t_len q)"
      by (simp only: disjoint_iff) simp
    have "mr_x q + unat (column_index (mr_Q q) i k) \<noteq> ?w k'" if "k' < mr_Q q" for k'
      using W [OF that] n0 by metis
    with a show "?v k s' = ?v k s" by simp
  qed
  from u have u1: "\<And>k. k < mr_Q q \<Longrightarrow>
        for_loop 0 (mr_Q q) (pass2_gather q i) s (?w k) = ?v k s"
    and u2: "\<And>a. \<forall>k<mr_Q q. a \<noteq> ?w k \<Longrightarrow>
        for_loop 0 (mr_Q q) (pass2_gather q i) s a = s a"
    by simp_all
  show "\<forall>k<unat (mr_Q q). for_loop 0 (mr_Q q) (pass2_gather q i) s (mr_t0 q + k)
           = s (mr_x q + (unat (mr_Q q) * unat i + k))"
  proof (intro allI impI)
    fix k assume "k < unat (mr_Q q)"
    note c = uint_of_nat_less [OF this]
    from c(2) have "for_loop 0 (mr_Q q) (pass2_gather q i) s (?w (of_nat k :: uint)) = ?v (of_nat k) s"
      by (rule u1)
    then show "for_loop 0 (mr_Q q) (pass2_gather q i) s (mr_t0 q + k)
           = s (mr_x q + (unat (mr_Q q) * unat i + k))"
      by (simp add: c(1) column_index_unat(1) [OF PQ i c(2)])
  qed
  show "\<forall>a. a \<notin> blk (mr_t0 q) (t_len q) \<longrightarrow>
      for_loop 0 (mr_Q q) (pass2_gather q i) s a = s a"
  proof (intro allI impI)
    fix a assume "a \<notin> blk (mr_t0 q) (t_len q)"
    with W have "\<forall>k<mr_Q q. a \<noteq> ?w k" by metis
    then show "for_loop 0 (mr_Q q) (pass2_gather q i) s a = s a"
      by (rule u2)
  qed
qed

lemma pass1_scatter_loop:
  assumes L: "plan_layout q priv" and i: "i < mr_Q q"
  shows "\<forall>k<unat (mr_P q).
           for_loop 0 (mr_P q) (pass1_scatter q i) s (mr_x q + (unat (mr_Q q) * k + unat i))
             = s (mr_t1 q + k) * s (twiddle q + unat i * k)"
    and "\<forall>a. (\<forall>k<unat (mr_P q). a \<noteq> mr_x q + (unat (mr_Q q) * k + unat i)) \<longrightarrow>
           for_loop 0 (mr_P q) (pass1_scatter q i) s a = s a"
proof -
  from L have PQ: "unat (mr_P q) * unat (mr_Q q) = unat (nfft q)"
    and X1: "blk (mr_x q) (unat (nfft q)) \<inter> blk (mr_t1 q) (t_len q) = {}"
    and XW: "blk (mr_x q) (unat (nfft q)) \<inter> blk (twiddle q) (unat (nfft q)) = {}"
    by (simp_all add: plan_layout_def)
  let ?w = "\<lambda>k::uint. mr_x q + unat (decimate_index (mr_Q q) i k)"
  let ?v = "\<lambda>(k::uint) (s::store). s (mr_t1 q + unat k) * s (twiddle q + unat (twiddle_index i k))"
  note di = decimate_index_unat [OF PQ i]
  have Qpos: "0 < unat (mr_Q q)" using i by (simp add: uint_less_unat)
  have W: "?w k \<in> blk (mr_x q) (unat (nfft q))" if "k < mr_P q" for k
    using di(2) [OF that] by (rule blk_offset)
  have u: "(\<forall>k<mr_P q. for_loop 0 (mr_P q) (pass1_scatter q i) s (?w k) = ?v k s) \<and>
        (\<forall>a. (\<forall>k<mr_P q. a \<noteq> ?w k) \<longrightarrow> for_loop 0 (mr_P q) (pass1_scatter q i) s a = s a)"
  proof (rule update_loop)
    fix k s' assume "k < mr_P q"
    show "pass1_scatter q i k s' = s'(?w k := ?v k s')" by (simp add: pass1_scatter_def)
  next
    fix k k' :: uint assume "k < mr_P q" "k' < mr_P q" "?w k = ?w k'"
    then have "unat (mr_Q q) * unat k + unat i = unat (mr_Q q) * unat k' + unat i"
      by (simp add: di(1))
    with Qpos have "unat k = unat k'" by simp
    then show "k = k'" by (rule uint_eq_unat)
  next
    fix k s' assume k: "k < mr_P q" and a: "\<forall>a. (\<forall>k<mr_P q. a \<noteq> ?w k) \<longrightarrow> s' a = s a"
    have "unat k < t_len q" using k t_len_ge(1) [of q] by (simp add: uint_less_unat)
    then have "mr_t1 q + unat k \<in> blk (mr_t1 q) (t_len q)" by (rule blk_offset)
    with X1 have n1: "mr_t1 q + unat k \<notin> blk (mr_x q) (unat (nfft q))"
      by (simp only: disjoint_iff) metis
    have "unat (twiddle_index i k) < unat (nfft q)"
      using twiddle_index_unat [OF PQ i k] by simp
    then have "twiddle q + unat (twiddle_index i k) \<in> blk (twiddle q) (unat (nfft q))"
      by (rule blk_offset)
    with XW have n2: "twiddle q + unat (twiddle_index i k) \<notin> blk (mr_x q) (unat (nfft q))"
      by (simp only: disjoint_iff) metis
    have "mr_t1 q + unat k \<noteq> ?w k'" "twiddle q + unat (twiddle_index i k) \<noteq> ?w k'"
      if "k' < mr_P q" for k'
      using W [OF that] n1 n2 by metis+
    with a show "?v k s' = ?v k s" by simp
  qed
  from u have u1: "\<And>k. k < mr_P q \<Longrightarrow>
        for_loop 0 (mr_P q) (pass1_scatter q i) s (?w k) = ?v k s"
    and u2: "\<And>a. \<forall>k<mr_P q. a \<noteq> ?w k \<Longrightarrow>
        for_loop 0 (mr_P q) (pass1_scatter q i) s a = s a"
    by simp_all
  show "\<forall>k<unat (mr_P q).
           for_loop 0 (mr_P q) (pass1_scatter q i) s (mr_x q + (unat (mr_Q q) * k + unat i))
             = s (mr_t1 q + k) * s (twiddle q + unat i * k)"
  proof (intro allI impI)
    fix k assume "k < unat (mr_P q)"
    note c = uint_of_nat_less [OF this]
    from c(2) have "for_loop 0 (mr_P q) (pass1_scatter q i) s (?w (of_nat k :: uint)) = ?v (of_nat k) s"
      by (rule u1)
    then show "for_loop 0 (mr_P q) (pass1_scatter q i) s (mr_x q + (unat (mr_Q q) * k + unat i))
             = s (mr_t1 q + k) * s (twiddle q + unat i * k)"
      by (simp add: c(1) di(1) [OF c(2)] twiddle_index_unat(1) [OF PQ i c(2)])
  qed
  show "\<forall>a. (\<forall>k<unat (mr_P q). a \<noteq> mr_x q + (unat (mr_Q q) * k + unat i)) \<longrightarrow>
           for_loop 0 (mr_P q) (pass1_scatter q i) s a = s a"
  proof (intro allI impI)
    fix a assume a: "\<forall>k<unat (mr_P q). a \<noteq> mr_x q + (unat (mr_Q q) * k + unat i)"
    have "a \<noteq> ?w k" if "k < mr_P q" for k
    proof -
      from that have "unat k < unat (mr_P q)" by (simp add: uint_less_unat)
      with a have "a \<noteq> mr_x q + (unat (mr_Q q) * unat k + unat i)" by simp
      then show ?thesis by (simp add: di(1) [OF that])
    qed
    then have "\<forall>k<mr_P q. a \<noteq> ?w k" by simp
    then show "for_loop 0 (mr_P q) (pass1_scatter q i) s a = s a" by (rule u2)
  qed
qed

lemma pass2_transpose_loop:
  assumes L: "plan_layout q priv" and i: "i < mr_P q"
  shows "\<forall>k<unat (mr_Q q).
           for_loop 0 (mr_Q q) (pass2_transpose q i) s (buf_y q + (k * unat (mr_P q) + unat i))
             = s (mr_t1 q + k)"
    and "\<forall>a. (\<forall>k<unat (mr_Q q). a \<noteq> buf_y q + (k * unat (mr_P q) + unat i)) \<longrightarrow>
           for_loop 0 (mr_Q q) (pass2_transpose q i) s a = s a"
proof -
  from L have PQ: "unat (mr_P q) * unat (mr_Q q) = unat (nfft q)"
    and Y: "blk (buf_y q) (unat (nfft q)) \<inter>
       (blk (mr_x q) (unat (nfft q)) \<union> blk (mr_t0 q) (t_len q) \<union> blk (mr_t1 q) (t_len q)
          \<union> blk (twiddle q) (unat (nfft q)) \<union> priv) = {}"
    by (simp_all add: plan_layout_def)
  let ?w = "\<lambda>k::uint. buf_y q + unat (transpose_index (mr_P q) i k)"
  let ?v = "\<lambda>(k::uint) (s::store). s (mr_t1 q + unat k)"
  note ti = transpose_index_unat [OF PQ i]
  have Ppos: "0 < unat (mr_P q)" using i by (simp add: uint_less_unat)
  have W: "?w k \<in> blk (buf_y q) (unat (nfft q))" if "k < mr_Q q" for k
    using ti(2) [OF that] by (rule blk_offset)
  have u: "(\<forall>k<mr_Q q. for_loop 0 (mr_Q q) (pass2_transpose q i) s (?w k) = ?v k s) \<and>
        (\<forall>a. (\<forall>k<mr_Q q. a \<noteq> ?w k) \<longrightarrow> for_loop 0 (mr_Q q) (pass2_transpose q i) s a = s a)"
  proof (rule update_loop)
    fix k s' assume "k < mr_Q q"
    show "pass2_transpose q i k s' = s'(?w k := ?v k s')" by (simp add: pass2_transpose_def)
  next
    fix k k' :: uint assume "k < mr_Q q" "k' < mr_Q q" "?w k = ?w k'"
    then have "unat k * unat (mr_P q) + unat i = unat k' * unat (mr_P q) + unat i"
      by (simp add: ti(1))
    with Ppos have "unat k = unat k'" by simp
    then show "k = k'" by (rule uint_eq_unat)
  next
    fix k s' assume k: "k < mr_Q q" and a: "\<forall>a. (\<forall>k<mr_Q q. a \<noteq> ?w k) \<longrightarrow> s' a = s a"
    have "unat k < t_len q" using k t_len_ge(2) [of q] by (simp add: uint_less_unat)
    then have "mr_t1 q + unat k \<in> blk (mr_t1 q) (t_len q)" by (rule blk_offset)
    with Y have n1: "mr_t1 q + unat k \<notin> blk (buf_y q) (unat (nfft q))"
      by (simp only: disjoint_iff Un_iff) metis
    have "mr_t1 q + unat k \<noteq> ?w k'" if "k' < mr_Q q" for k'
      using W [OF that] n1 by metis
    with a show "?v k s' = ?v k s" by simp
  qed
  from u have u1: "\<And>k. k < mr_Q q \<Longrightarrow>
        for_loop 0 (mr_Q q) (pass2_transpose q i) s (?w k) = ?v k s"
    and u2: "\<And>a. \<forall>k<mr_Q q. a \<noteq> ?w k \<Longrightarrow>
        for_loop 0 (mr_Q q) (pass2_transpose q i) s a = s a"
    by simp_all
  show "\<forall>k<unat (mr_Q q).
           for_loop 0 (mr_Q q) (pass2_transpose q i) s (buf_y q + (k * unat (mr_P q) + unat i))
             = s (mr_t1 q + k)"
  proof (intro allI impI)
    fix k assume "k < unat (mr_Q q)"
    note c = uint_of_nat_less [OF this]
    from c(2) have "for_loop 0 (mr_Q q) (pass2_transpose q i) s (?w (of_nat k :: uint)) = ?v (of_nat k) s"
      by (rule u1)
    then show "for_loop 0 (mr_Q q) (pass2_transpose q i) s (buf_y q + (k * unat (mr_P q) + unat i))
             = s (mr_t1 q + k)"
      by (simp add: c(1) ti(1) [OF c(2)])
  qed
  show "\<forall>a. (\<forall>k<unat (mr_Q q). a \<noteq> buf_y q + (k * unat (mr_P q) + unat i)) \<longrightarrow>
           for_loop 0 (mr_Q q) (pass2_transpose q i) s a = s a"
  proof (intro allI impI)
    fix a assume a: "\<forall>k<unat (mr_Q q). a \<noteq> buf_y q + (k * unat (mr_P q) + unat i)"
    have "a \<noteq> ?w k" if "k < mr_Q q" for k
    proof -
      from that have "unat k < unat (mr_Q q)" by (simp add: uint_less_unat)
      with a have "a \<noteq> buf_y q + (unat k * unat (mr_P q) + unat i)" by simp
      then show ?thesis by (simp add: ti(1) [OF that])
    qed
    then have "\<forall>k<mr_Q q. a \<noteq> ?w k" by simp
    then show "for_loop 0 (mr_Q q) (pass2_transpose q i) s a = s a" by (rule u2)
  qed
qed

section \<open>The two passes\<close>

lemma dft_cong: "(\<And>j. j < n \<Longrightarrow> f j = g j) \<Longrightarrow> dft d n f m = dft d n g m"
  by (simp add: dft_def)

lemma notin_disjoint: "A \<inter> B = {} \<Longrightarrow> a \<in> A \<Longrightarrow> a \<notin> B"
  by blast

lemma notin_disjoint': "A \<inter> B = {} \<Longrightarrow> a \<in> B \<Longrightarrow> a \<notin> A"
  by blast

lemma pass1_body_effect:
  assumes L: "plan_layout q priv" and F: "subplans_frame env q priv"
    and D: "subplans_dft env q d priv intact" and i: "i < mr_Q q" and ok: "intact s"
  shows "\<forall>k<unat (mr_P q). pass1_body env q i s (mr_x q + (unat (mr_Q q) * k + unat i))
           = dft d (unat (mr_P q)) (\<lambda>m. s (mr_x q + (unat (mr_Q q) * m + unat i))) k
               * s (twiddle q + unat i * k)"
    and "\<forall>a. a \<notin> blk (mr_t0 q) (t_len q) \<union> blk (mr_t1 q) (t_len q) \<union> priv \<and>
             (\<forall>k<unat (mr_P q). a \<noteq> mr_x q + (unat (mr_Q q) * k + unat i))
           \<longrightarrow> pass1_body env q i s a = s a"
    and "intact (pass1_body env q i s)"
proof -
  let ?P = "unat (mr_P q)" and ?Q = "unat (mr_Q q)" and ?N = "unat (nfft q)"
  let ?X = "blk (mr_x q) ?N" and ?T0 = "blk (mr_t0 q) (t_len q)"
  let ?T1 = "blk (mr_t1 q) (t_len q)" and ?TW = "blk (twiddle q) ?N"
  from L have PQ: "?P * ?Q = ?N"
    and X0: "?X \<inter> ?T0 = {}" and X1: "?X \<inter> ?T1 = {}" and XW: "?X \<inter> ?TW = {}"
    and Xp: "?X \<inter> priv = {}" and T01: "?T0 \<inter> ?T1 = {}" and T0W: "?T0 \<inter> ?TW = {}"
    and T0p: "?T0 \<inter> priv = {}" and T1W: "?T1 \<inter> ?TW = {}" and T1p: "?T1 \<inter> priv = {}"
    and TWp: "?TW \<inter> priv = {}"
    by (simp_all add: plan_layout_def)
  from F have F0: "\<And>s a. a \<notin> priv \<union> blk (mr_t1 q) ?P \<union> blk (mr_t0 q) ?P \<Longrightarrow>
      fft_execute env (subplans q ! 0) s a = s a"
    by (simp add: subplans_frame_def subplan_frame_def)
  from D have D0: "\<And>s. intact s \<Longrightarrow> intact (fft_execute env (subplans q ! 0) s)"
    and D1: "\<And>s k. intact s \<Longrightarrow> k < ?P \<Longrightarrow> fft_execute env (subplans q ! 0) s (mr_t1 q + k)
               = dft d ?P (\<lambda>j. s (mr_t0 q + j)) k"
    and loc: "\<And>s s'. intact s \<Longrightarrow> (\<forall>a\<in>priv. s' a = s a) \<Longrightarrow> intact s'"
    by (simp_all add: subplans_dft_def subplan_dft_def) blast
  have sub0: "blk (mr_t0 q) ?P \<subseteq> ?T0" and sub1: "blk (mr_t1 q) ?P \<subseteq> ?T1"
    using t_len_ge(1) [of q] by (rule blk_mono)+
  let ?sa = "for_loop 0 (mr_P q) (pass1_gather q i) s"
  let ?sb = "fft_execute env (subplans q ! 0) ?sa"
  let ?sc = "for_loop 0 (mr_P q) (pass1_scatter q i) ?sb"
  have body: "pass1_body env q i s = ?sc" by (simp add: pass1_body_def Let_def)
  note g = pass1_gather_loop [OF L i, of s]
  note sc = pass1_scatter_loop [OF L i, of ?sb]
  have xin: "mr_x q + (?Q * k + unat i) \<in> ?X" if "k < ?P" for k
  proof -
    from i have "unat i < ?Q" by (simp add: uint_less_unat)
    from nat_index_bound [OF this that] PQ show ?thesis by (simp add: blk_offset)
  qed
  have ga: "?sa a = s a" if "a \<notin> ?T0" for a using g(2) that by simp
  have oka: "intact ?sa"
  proof (rule loc [OF ok], rule ballI)
    fix a assume "a \<in> priv"
    with T0p have "a \<notin> ?T0" by (rule notin_disjoint')
    then show "?sa a = s a" by (rule ga)
  qed
  have okb: "intact ?sb" using oka by (rule D0)
  have ba: "?sb a = ?sa a" if "a \<notin> ?T0" "a \<notin> ?T1" "a \<notin> priv" for a
    using that sub0 sub1 by (intro F0) blast
  have t1: "?sb (mr_t1 q + k) = dft d ?P (\<lambda>m. s (mr_x q + (?Q * m + unat i))) k"
    if "k < ?P" for k
  proof -
    have "?sb (mr_t1 q + k) = dft d ?P (\<lambda>j. ?sa (mr_t0 q + j)) k"
      using oka that by (rule D1)
    also have "\<dots> = dft d ?P (\<lambda>m. s (mr_x q + (?Q * m + unat i))) k"
      using g(1) by (intro dft_cong) simp
    finally show ?thesis .
  qed
  have tw: "?sb (twiddle q + unat i * k) = s (twiddle q + unat i * k)" if "k < ?P" for k
  proof -
    have "unat i * k < ?N"
    proof -
      from i have "unat i < ?Q" by (simp add: uint_less_unat)
      with that have "unat i * k < ?Q * ?P"
        by (intro mult_strict_mono') simp_all
      with PQ show ?thesis by (simp add: mult.commute)
    qed
    then have m: "twiddle q + unat i * k \<in> ?TW" by (rule blk_offset)
    have "?sb (twiddle q + unat i * k) = ?sa (twiddle q + unat i * k)"
      using notin_disjoint' [OF T0W m] notin_disjoint' [OF T1W m] notin_disjoint [OF TWp m]
      by (rule ba)
    also have "\<dots> = s (twiddle q + unat i * k)"
      using notin_disjoint' [OF T0W m] by (rule ga)
    finally show ?thesis .
  qed
  show "\<forall>k<?P. pass1_body env q i s (mr_x q + (?Q * k + unat i))
           = dft d ?P (\<lambda>m. s (mr_x q + (?Q * m + unat i))) k * s (twiddle q + unat i * k)"
    unfolding body using sc(1) t1 tw by simp
  show "\<forall>a. a \<notin> ?T0 \<union> ?T1 \<union> priv \<and> (\<forall>k<?P. a \<noteq> mr_x q + (?Q * k + unat i))
           \<longrightarrow> pass1_body env q i s a = s a"
    unfolding body using sc(2) ba ga by simp
  show "intact (pass1_body env q i s)"
    unfolding body
  proof (rule loc [OF okb], rule ballI)
    fix a assume a: "a \<in> priv"
    have "a \<noteq> mr_x q + (?Q * k + unat i)" if "k < ?P" for k
      using notin_disjoint' [OF Xp a] xin [OF that] by metis
    then show "?sc a = ?sb a" using sc(2) by simp
  qed
qed

lemma pass1_effect:
  assumes L: "plan_layout q priv" and F: "subplans_frame env q priv"
    and D: "subplans_dft env q d priv intact" and ok: "intact s"
  shows "\<forall>i k. i < unat (mr_Q q) \<and> k < unat (mr_P q) \<longrightarrow>
           for_loop 0 (mr_Q q) (pass1_body env q) s (mr_x q + (unat (mr_Q q) * k + i))
             = dft d (unat (mr_P q)) (\<lambda>m. s (mr_x q + (unat (mr_Q q) * m + i))) k
                 * s (twiddle q + i * k)"
    and "intact (for_loop 0 (mr_Q q) (pass1_body env q) s)"
proof -
  let ?P = "unat (mr_P q)" and ?Q = "unat (mr_Q q)" and ?N = "unat (nfft q)"
  let ?X = "blk (mr_x q) ?N" and ?T0 = "blk (mr_t0 q) (t_len q)"
  let ?T1 = "blk (mr_t1 q) (t_len q)" and ?TW = "blk (twiddle q) ?N"
  from L have PQ: "?P * ?Q = ?N"
    and X0: "?X \<inter> ?T0 = {}" and X1: "?X \<inter> ?T1 = {}" and XW: "?X \<inter> ?TW = {}"
    and Xp: "?X \<inter> priv = {}" and T0W: "?T0 \<inter> ?TW = {}"
    and T1W: "?T1 \<inter> ?TW = {}" and TWp: "?TW \<inter> priv = {}"
    by (simp_all add: plan_layout_def)
  let ?val = "\<lambda>i k. dft d ?P (\<lambda>m. s (mr_x q + (?Q * m + i))) k * s (twiddle q + i * k)"
  let ?I = "\<lambda>j s'. intact s' \<and>
      (\<forall>i k. i < ?Q \<and> k < ?P \<longrightarrow>
         s' (mr_x q + (?Q * k + i)) = (if i < j then ?val i k else s (mr_x q + (?Q * k + i)))) \<and>
      (\<forall>a. a \<notin> ?X \<union> ?T0 \<union> ?T1 \<union> priv \<longrightarrow> s' a = s a)"
  have xin: "mr_x q + (?Q * k + i) \<in> ?X" if "i < ?Q" "k < ?P" for i k
    using nat_index_bound [OF that] PQ by (simp add: blk_offset)
  have "?I ?Q (for_loop 0 (mr_Q q) (pass1_body env q) s)"
  proof (rule for_loop_rule [where I = ?I])
    show "?I 0 s" using ok by simp
  next
    fix i s' assume i: "i < mr_Q q" and I: "?I (unat i) s'"
    from I have ok': "intact s'"
      and cur: "\<And>i' k. i' < ?Q \<Longrightarrow> k < ?P \<Longrightarrow> s' (mr_x q + (?Q * k + i'))
                  = (if i' < unat i then ?val i' k else s (mr_x q + (?Q * k + i')))"
      and fr: "\<And>a. a \<notin> ?X \<union> ?T0 \<union> ?T1 \<union> priv \<Longrightarrow> s' a = s a"
      by blast+
    note b = pass1_body_effect [OF L F D i ok']
    have iQ: "unat i < ?Q" using i by (simp add: uint_less_unat)
    have A: "pass1_body env q i s' (mr_x q + (?Q * k + i'))
               = (if i' < Suc (unat i) then ?val i' k else s (mr_x q + (?Q * k + i')))"
      if i': "i' < ?Q" and k: "k < ?P" for i' k
    proof (cases "i' = unat i")
      case True
      have "pass1_body env q i s' (mr_x q + (?Q * k + unat i))
              = dft d ?P (\<lambda>m. s' (mr_x q + (?Q * m + unat i))) k * s' (twiddle q + unat i * k)"
        using b(1) k by simp
      also have "dft d ?P (\<lambda>m. s' (mr_x q + (?Q * m + unat i))) k
                   = dft d ?P (\<lambda>m. s (mr_x q + (?Q * m + unat i))) k"
        using cur [OF iQ] by (intro dft_cong) simp
      also have "s' (twiddle q + unat i * k) = s (twiddle q + unat i * k)"
      proof -
        have "unat i * k < ?Q * ?P" using iQ k by (intro mult_strict_mono') simp_all
        with PQ have "unat i * k < ?N" by (simp add: mult.commute)
        then have m: "twiddle q + unat i * k \<in> ?TW" by (rule blk_offset)
        show ?thesis
          using notin_disjoint' [OF XW m] notin_disjoint' [OF T0W m]
            notin_disjoint' [OF T1W m] notin_disjoint [OF TWp m]
          by (intro fr) simp
      qed
      finally show ?thesis using True by simp
    next
      case False
      let ?a = "mr_x q + (?Q * k + i')"
      have m: "?a \<in> ?X" using i' k by (rule xin)
      have "?a \<noteq> mr_x q + (?Q * k' + unat i)" for k'
      proof
        assume "?a = mr_x q + (?Q * k' + unat i)"
        then have "k * ?Q + i' = k' * ?Q + unat i" by (simp add: mult.commute)
        with transpose_nat_inj [OF i' iQ] False show False by blast
      qed
      then have "pass1_body env q i s' ?a = s' ?a"
        using notin_disjoint [OF X0 m] notin_disjoint [OF X1 m] notin_disjoint [OF Xp m] b(2)
        by simp
      with cur [OF i' k] False show ?thesis by (simp add: less_Suc_eq)
    qed
    have B: "pass1_body env q i s' a = s a" if a: "a \<notin> ?X \<union> ?T0 \<union> ?T1 \<union> priv" for a
    proof -
      have "a \<noteq> mr_x q + (?Q * k + unat i)" if "k < ?P" for k
        using xin [OF iQ that] a by blast
      with a b(2) have "pass1_body env q i s' a = s' a" by simp
      with fr [OF a] show ?thesis by simp
    qed
    from A B b(3) show "?I (Suc (unat i)) (pass1_body env q i s')" by blast
  qed
  then show "\<forall>i k. i < ?Q \<and> k < ?P \<longrightarrow>
           for_loop 0 (mr_Q q) (pass1_body env q) s (mr_x q + (?Q * k + i)) = ?val i k"
    and "intact (for_loop 0 (mr_Q q) (pass1_body env q) s)"
    by simp_all
qed

lemma pass2_body_effect:
  assumes L: "plan_layout q priv" and F: "subplans_frame env q priv"
    and D: "subplans_dft env q d priv intact" and i: "i < mr_P q" and ok: "intact s"
  shows "\<forall>k<unat (mr_Q q). pass2_body env q i s (buf_y q + (k * unat (mr_P q) + unat i))
           = dft d (unat (mr_Q q)) (\<lambda>l. s (mr_x q + (unat (mr_Q q) * unat i + l))) k"
    and "\<forall>a. a \<notin> blk (mr_t0 q) (t_len q) \<union> blk (mr_t1 q) (t_len q) \<union> priv \<and>
             (\<forall>k<unat (mr_Q q). a \<noteq> buf_y q + (k * unat (mr_P q) + unat i))
           \<longrightarrow> pass2_body env q i s a = s a"
    and "intact (pass2_body env q i s)"
proof -
  let ?P = "unat (mr_P q)" and ?Q = "unat (mr_Q q)" and ?N = "unat (nfft q)"
  let ?X = "blk (mr_x q) ?N" and ?T0 = "blk (mr_t0 q) (t_len q)"
  let ?T1 = "blk (mr_t1 q) (t_len q)" and ?TW = "blk (twiddle q) ?N"
  let ?Y = "blk (buf_y q) ?N"
  from L have PQ: "?P * ?Q = ?N"
    and T0p: "?T0 \<inter> priv = {}" and T1p: "?T1 \<inter> priv = {}"
    and Y: "?Y \<inter> (?X \<union> ?T0 \<union> ?T1 \<union> ?TW \<union> priv) = {}"
    by (simp_all add: plan_layout_def)
  from Y have Yp: "?Y \<inter> priv = {}" by blast
  from F have F0: "\<And>s a. a \<notin> priv \<union> blk (mr_t1 q) ?Q \<union> blk (mr_t0 q) ?Q \<Longrightarrow>
      fft_execute env (subplans q ! 1) s a = s a"
    by (simp add: subplans_frame_def subplan_frame_def)
  from D have D0: "\<And>s. intact s \<Longrightarrow> intact (fft_execute env (subplans q ! 1) s)"
    and D1: "\<And>s k. intact s \<Longrightarrow> k < ?Q \<Longrightarrow> fft_execute env (subplans q ! 1) s (mr_t1 q + k)
               = dft d ?Q (\<lambda>j. s (mr_t0 q + j)) k"
    and loc: "\<And>s s'. intact s \<Longrightarrow> (\<forall>a\<in>priv. s' a = s a) \<Longrightarrow> intact s'"
    by (simp_all add: subplans_dft_def subplan_dft_def) blast
  have sub0: "blk (mr_t0 q) ?Q \<subseteq> ?T0" and sub1: "blk (mr_t1 q) ?Q \<subseteq> ?T1"
    using t_len_ge(2) [of q] by (rule blk_mono)+
  let ?sa = "for_loop 0 (mr_Q q) (pass2_gather q i) s"
  let ?sb = "fft_execute env (subplans q ! 1) ?sa"
  let ?sc = "for_loop 0 (mr_Q q) (pass2_transpose q i) ?sb"
  have body: "pass2_body env q i s = ?sc" by (simp add: pass2_body_def Let_def)
  note g = pass2_gather_loop [OF L i, of s]
  note sc = pass2_transpose_loop [OF L i, of ?sb]
  have yin: "buf_y q + (k * ?P + unat i) \<in> ?Y" if "k < ?Q" for k
  proof -
    from i have "unat i < ?P" by (simp add: uint_less_unat)
    from nat_index_bound [OF this that] PQ show ?thesis
      by (simp add: blk_offset mult.commute)
  qed
  have ga: "?sa a = s a" if "a \<notin> ?T0" for a using g(2) that by simp
  have oka: "intact ?sa"
  proof (rule loc [OF ok], rule ballI)
    fix a assume "a \<in> priv"
    with T0p have "a \<notin> ?T0" by (rule notin_disjoint')
    then show "?sa a = s a" by (rule ga)
  qed
  have okb: "intact ?sb" using oka by (rule D0)
  have ba: "?sb a = ?sa a" if "a \<notin> ?T0" "a \<notin> ?T1" "a \<notin> priv" for a
    using that sub0 sub1 by (intro F0) blast
  have t1: "?sb (mr_t1 q + k) = dft d ?Q (\<lambda>l. s (mr_x q + (?Q * unat i + l))) k"
    if "k < ?Q" for k
  proof -
    have "?sb (mr_t1 q + k) = dft d ?Q (\<lambda>j. ?sa (mr_t0 q + j)) k"
      using oka that by (rule D1)
    also have "\<dots> = dft d ?Q (\<lambda>l. s (mr_x q + (?Q * unat i + l))) k"
      using g(1) by (intro dft_cong) simp
    finally show ?thesis .
  qed
  show "\<forall>k<?Q. pass2_body env q i s (buf_y q + (k * ?P + unat i))
           = dft d ?Q (\<lambda>l. s (mr_x q + (?Q * unat i + l))) k"
    unfolding body using sc(1) t1 by simp
  show "\<forall>a. a \<notin> ?T0 \<union> ?T1 \<union> priv \<and> (\<forall>k<?Q. a \<noteq> buf_y q + (k * ?P + unat i))
           \<longrightarrow> pass2_body env q i s a = s a"
    unfolding body using sc(2) ba ga by simp
  show "intact (pass2_body env q i s)"
    unfolding body
  proof (rule loc [OF okb], rule ballI)
    fix a assume a: "a \<in> priv"
    have "a \<noteq> buf_y q + (k * ?P + unat i)" if "k < ?Q" for k
      using notin_disjoint' [OF Yp a] yin [OF that] by metis
    then show "?sc a = ?sb a" using sc(2) by simp
  qed
qed

lemma pass2_effect:
  assumes L: "plan_layout q priv" and F: "subplans_frame env q priv"
    and D: "subplans_dft env q d priv intact" and ok: "intact s"
  shows "\<forall>i k. i < unat (mr_P q) \<and> k < unat (mr_Q q) \<longrightarrow>
           for_loop 0 (mr_P q) (pass2_body env q) s (buf_y q + (k * unat (mr_P q) + i))
             = dft d (unat (mr_Q q)) (\<lambda>l. s (mr_x q + (unat (mr_Q q) * i + l))) k"
    and "intact (for_loop 0 (mr_P q) (pass2_body env q) s)"
proof -
  let ?P = "unat (mr_P q)" and ?Q = "unat (mr_Q q)" and ?N = "unat (nfft q)"
  let ?X = "blk (mr_x q) ?N" and ?T0 = "blk (mr_t0 q) (t_len q)"
  let ?T1 = "blk (mr_t1 q) (t_len q)" and ?TW = "blk (twiddle q) ?N"
  let ?Y = "blk (buf_y q) ?N"
  from L have PQ: "?P * ?Q = ?N"
    and X0: "?X \<inter> ?T0 = {}" and X1: "?X \<inter> ?T1 = {}" and Xp: "?X \<inter> priv = {}"
    and Y: "?Y \<inter> (?X \<union> ?T0 \<union> ?T1 \<union> ?TW \<union> priv) = {}"
    by (simp_all add: plan_layout_def)
  from Y have YX: "?Y \<inter> ?X = {}" and Y0: "?Y \<inter> ?T0 = {}" and Y1: "?Y \<inter> ?T1 = {}"
    and Yp: "?Y \<inter> priv = {}" by blast+
  let ?val = "\<lambda>i k. dft d ?Q (\<lambda>l. s (mr_x q + (?Q * i + l))) k"
  let ?I = "\<lambda>j s'. intact s' \<and> (\<forall>a\<in>?X. s' a = s a) \<and>
      (\<forall>i k. i < j \<and> k < ?Q \<longrightarrow> s' (buf_y q + (k * ?P + i)) = ?val i k)"
  have yin: "buf_y q + (k * ?P + i) \<in> ?Y" if "i < ?P" "k < ?Q" for i k
    using nat_index_bound [OF that] PQ by (simp add: blk_offset mult.commute)
  have xin: "mr_x q + (?Q * i + l) \<in> ?X" if "l < ?Q" "i < ?P" for i l
    using nat_index_bound [OF that] PQ by (simp add: blk_offset)
  have "?I ?P (for_loop 0 (mr_P q) (pass2_body env q) s)"
  proof (rule for_loop_rule [where I = ?I])
    show "?I 0 s" using ok by simp
  next
    fix i s' assume i: "i < mr_P q" and I: "?I (unat i) s'"
    from I have ok': "intact s'"
      and keepX: "\<And>a. a \<in> ?X \<Longrightarrow> s' a = s a"
      and prev: "\<And>i' k. i' < unat i \<Longrightarrow> k < ?Q \<Longrightarrow> s' (buf_y q + (k * ?P + i')) = ?val i' k"
      by blast+
    note b = pass2_body_effect [OF L F D i ok']
    have iP: "unat i < ?P" using i by (simp add: uint_less_unat)
    have A: "pass2_body env q i s' a = s a" if a: "a \<in> ?X" for a
    proof -
      have "a \<noteq> buf_y q + (k * ?P + unat i)" if "k < ?Q" for k
        using notin_disjoint' [OF YX a] yin [OF iP that] by metis
      then have "pass2_body env q i s' a = s' a"
        using notin_disjoint [OF X0 a] notin_disjoint [OF X1 a] notin_disjoint [OF Xp a] b(2)
        by simp
      with keepX [OF a] show ?thesis by simp
    qed
    have B: "pass2_body env q i s' (buf_y q + (k * ?P + i')) = ?val i' k"
      if i': "i' < Suc (unat i)" and k: "k < ?Q" for i' k
    proof (cases "i' = unat i")
      case True
      have "pass2_body env q i s' (buf_y q + (k * ?P + unat i))
              = dft d ?Q (\<lambda>l. s' (mr_x q + (?Q * unat i + l))) k"
        using b(1) k by simp
      also have "\<dots> = ?val (unat i) k"
        using keepX [OF xin [OF _ iP]] by (intro dft_cong) simp
      finally show ?thesis using True by simp
    next
      case False
      with i' have lt: "i' < unat i" by simp
      with iP have i'P: "i' < ?P" by simp
      let ?a = "buf_y q + (k * ?P + i')"
      have m: "?a \<in> ?Y" using i'P k by (rule yin)
      have "?a \<noteq> buf_y q + (k' * ?P + unat i)" for k'
      proof
        assume "?a = buf_y q + (k' * ?P + unat i)"
        then have "k * ?P + i' = k' * ?P + unat i" by simp
        with transpose_nat_inj [OF i'P iP] False show False by blast
      qed
      then have "pass2_body env q i s' ?a = s' ?a"
        using notin_disjoint [OF Y0 m] notin_disjoint [OF Y1 m] notin_disjoint [OF Yp m] b(2)
        by simp
      with prev [OF lt k] show ?thesis by simp
    qed
    from A B b(3) show "?I (Suc (unat i)) (pass2_body env q i s')" by blast
  qed
  then show "\<forall>i k. i < ?P \<and> k < ?Q \<longrightarrow>
           for_loop 0 (mr_P q) (pass2_body env q) s (buf_y q + (k * ?P + i)) = ?val i k"
    and "intact (for_loop 0 (mr_P q) (pass2_body env q) s)"
    by simp_all
qed

section \<open>The second pass assigns every output cell once\<close>

text \<open>Two loops in step, and a loop cut in two.\<close>

lemma for_loop_sim:
  assumes "\<And>k a. k < n \<Longrightarrow> f (bodyA k a) = bodyB k (f a)"
  shows "f (for_loop i n bodyA a) = for_loop i n bodyB (f a)"
  using assms
proof (induction i n bodyA a rule: for_loop.induct)
  case (1 i n bodyA a)
  show ?case
  proof (cases "i < n")
    case True
    have "f (for_loop (i + 1) n bodyA (bodyA i a)) = for_loop (i + 1) n bodyB (f (bodyA i a))"
      using True by (rule "1.IH") (rule "1.prems")
    moreover have "f (bodyA i a) = bodyB i (f a)" using True by (rule "1.prems")
    ultimately show ?thesis
      using True by (simp add: for_loop.simps [of i n bodyA] for_loop.simps [of i n bodyB])
  next
    case False
    then show ?thesis
      by (simp add: for_loop.simps [of i n bodyA] for_loop.simps [of i n bodyB])
  qed
qed

lemma for_loop_split:
  assumes "i \<le> j" and "j \<le> n"
  shows "for_loop i n body s = for_loop j n body (for_loop i j body s)"
  using assms
proof (induction i j body s rule: for_loop.induct)
  case (1 i j body s)
  show ?case
  proof (cases "i < j")
    case True
    with "1.prems"(2) have lt: "i < n" by simp
    have suc: "unat (i + 1) = Suc (unat i)" using True by (rule uint_succ)
    have le: "i + 1 \<le> j" using True suc by (simp add: uint_le_unat uint_less_unat)
    have "for_loop (i + 1) n body (body i s)
            = for_loop j n body (for_loop (i + 1) j body (body i s))"
      using True le "1.prems"(2) by (rule "1.IH")
    then show ?thesis
      using True lt by (simp add: for_loop.simps [of i n] for_loop.simps [of i j])
  next
    case False
    with "1.prems"(1) have "i = j" by simp
    then show ?thesis by (simp add: for_loop.simps [of j j])
  qed
qed

lemma for_loop_step:
  "i < n \<Longrightarrow> for_loop i n body s = for_loop (i + 1) n body (body i s)"
  by (simp add: for_loop.simps [of i n])

text \<open>The logged run: its store is the executor's, its log the trace moved to \<^verbatim>\<open>y\<close>.\<close>

lemma pass2_body_logged_fst:
  "fst (pass2_body_logged env q i sw) = pass2_body env q i (fst sw)"
proof -
  have "fst (for_loop 0 (mr_Q q) (pass2_transpose_logged q i) (sb, w))
          = for_loop 0 (mr_Q q) (pass2_transpose q i) (fst (sb, w))" for sb w
    by (rule for_loop_sim) (simp add: pass2_transpose_logged_def)
  then show ?thesis by (simp add: pass2_body_logged_def pass2_body_def Let_def)
qed

lemma execute_logged_fst: "fst (execute_logged env q s) = execute_mixed_radix env q s"
proof -
  have "fst (for_loop 0 (mr_P q) (pass2_body_logged env q) sw)
          = for_loop 0 (mr_P q) (pass2_body env q) (fst sw)" for sw
    by (rule for_loop_sim [where f = fst]) (rule pass2_body_logged_fst)
  then show ?thesis by (simp add: execute_logged_def execute_mixed_radix_def Let_def)
qed

lemma pass2_body_logged_snd:
  "snd (pass2_body_logged env q i sw)
     = for_loop 0 (mr_Q q)
         (\<lambda>k w. w @ [buf_y q + unat (transpose_index (mr_P q) i k)]) (snd sw)"
proof -
  have "snd (for_loop 0 (mr_Q q) (pass2_transpose_logged q i) (sb, w))
          = for_loop 0 (mr_Q q)
              (\<lambda>k w. w @ [buf_y q + unat (transpose_index (mr_P q) i k)]) (snd (sb, w))"
    for sb w
    by (rule for_loop_sim) (simp add: pass2_transpose_logged_def)
  then show ?thesis by (simp add: pass2_body_logged_def Let_def)
qed

lemma execute_logged_snd:
  "snd (execute_logged env q s) = map ((+) (buf_y q)) (pass2_write_trace q)"
proof -
  let ?L = "\<lambda>i. for_loop 0 (mr_Q q)
              (\<lambda>k w. w @ [buf_y q + unat (transpose_index (mr_P q) i k)])"
  let ?T = "\<lambda>i. for_loop 0 (mr_Q q) (\<lambda>k tr. tr @ [unat (transpose_index (mr_P q) i k)])"
  have inner: "map ((+) (buf_y q)) (?T i t) = ?L i (map ((+) (buf_y q)) t)" for i t
    by (rule for_loop_sim) simp
  have "snd (for_loop 0 (mr_P q) (pass2_body_logged env q) sw)
          = for_loop 0 (mr_P q) ?L (snd sw)" for sw
    by (rule for_loop_sim [where f = snd]) (rule pass2_body_logged_snd)
  moreover have "map ((+) (buf_y q)) (for_loop 0 (mr_P q) ?T [])
                   = for_loop 0 (mr_P q) ?L (map ((+) (buf_y q)) [])"
    by (rule for_loop_sim [where f = "map ((+) (buf_y q))"]) (rule inner)
  ultimately show ?thesis
    by (simp add: execute_logged_def pass2_write_trace_def Let_def)
qed

lemma execute_log:
  assumes PQ: "unat (mr_P q) * unat (mr_Q q) = unat (nfft q)"
  shows "distinct (snd (execute_logged env q s))"
    and "set (snd (execute_logged env q s)) = blk (buf_y q) (unat (nfft q))"
    and "length (snd (execute_logged env q s)) = unat (nfft q)"
proof -
  note t = pass2_trace [OF PQ]
  have inj: "inj_on ((+) (buf_y q)) A" for A by (rule inj_onI) simp
  show "distinct (snd (execute_logged env q s))"
    unfolding execute_logged_snd using t(1) inj by (simp add: distinct_map)
  have "(+) (buf_y q) ` {..<unat (nfft q)} = blk (buf_y q) (unat (nfft q))"
  proof (intro set_eqI iffI)
    fix a assume "a \<in> (+) (buf_y q) ` {..<unat (nfft q)}"
    then show "a \<in> blk (buf_y q) (unat (nfft q))" by (auto simp: blk_def)
  next
    fix a assume "a \<in> blk (buf_y q) (unat (nfft q))"
    then have lo: "buf_y q \<le> a" and hi: "a < buf_y q + unat (nfft q)"
      by (simp_all add: blk_def)
    from lo hi have "a - buf_y q < unat (nfft q)" by arith
    with lo show "a \<in> (+) (buf_y q) ` {..<unat (nfft q)}"
      by (intro image_eqI [where x = "a - buf_y q"]) simp_all
  qed
  then show "set (snd (execute_logged env q s)) = blk (buf_y q) (unat (nfft q))"
    unfolding execute_logged_snd using t(2) by simp
  show "length (snd (execute_logged env q s)) = unat (nfft q)"
    unfolding execute_logged_snd using t(3) by simp
qed

text \<open>
  One turn of the second outer loop, whatever the sub-plan computes: cell
  \<open>k * P + i\<close> of \<^verbatim>\<open>y\<close> receives what the sub-plan left in \<^verbatim>\<open>t1[k]\<close>, and apart from these
  cells, the scratch buffers and the sub-plans' own cells, nothing changes.
\<close>

lemma pass2_body_assigns:
  assumes L: "plan_layout q priv" and F: "subplans_frame env q priv" and i: "i < mr_P q"
  shows "\<forall>k<unat (mr_Q q). pass2_body env q i s (buf_y q + (k * unat (mr_P q) + unat i))
           = fft_execute env (subplans q ! 1)
               (for_loop 0 (mr_Q q) (pass2_gather q i) s) (mr_t1 q + k)"
    and "\<forall>a. a \<notin> blk (mr_t0 q) (t_len q) \<union> blk (mr_t1 q) (t_len q) \<union> priv \<and>
             (\<forall>k<unat (mr_Q q). a \<noteq> buf_y q + (k * unat (mr_P q) + unat i))
           \<longrightarrow> pass2_body env q i s a = s a"
proof -
  let ?P = "unat (mr_P q)" and ?Q = "unat (mr_Q q)" and ?N = "unat (nfft q)"
  let ?T0 = "blk (mr_t0 q) (t_len q)" and ?T1 = "blk (mr_t1 q) (t_len q)"
  from F have F0: "\<And>s a. a \<notin> priv \<union> blk (mr_t1 q) ?Q \<union> blk (mr_t0 q) ?Q \<Longrightarrow>
      fft_execute env (subplans q ! 1) s a = s a"
    by (simp add: subplans_frame_def subplan_frame_def)
  have sub0: "blk (mr_t0 q) ?Q \<subseteq> ?T0" and sub1: "blk (mr_t1 q) ?Q \<subseteq> ?T1"
    using t_len_ge(2) [of q] by (rule blk_mono)+
  let ?sa = "for_loop 0 (mr_Q q) (pass2_gather q i) s"
  let ?sb = "fft_execute env (subplans q ! 1) ?sa"
  let ?sc = "for_loop 0 (mr_Q q) (pass2_transpose q i) ?sb"
  have body: "pass2_body env q i s = ?sc" by (simp add: pass2_body_def Let_def)
  note g = pass2_gather_loop [OF L i, of s]
  note sc = pass2_transpose_loop [OF L i, of ?sb]
  have ga: "?sa a = s a" if "a \<notin> ?T0" for a using g(2) that by simp
  have ba: "?sb a = ?sa a" if "a \<notin> ?T0" "a \<notin> ?T1" "a \<notin> priv" for a
    using that sub0 sub1 by (intro F0) blast
  show "\<forall>k<?Q. pass2_body env q i s (buf_y q + (k * ?P + unat i)) = ?sb (mr_t1 q + k)"
    unfolding body using sc(1) by simp
  show "\<forall>a. a \<notin> ?T0 \<union> ?T1 \<union> priv \<and> (\<forall>k<?Q. a \<noteq> buf_y q + (k * ?P + unat i))
           \<longrightarrow> pass2_body env q i s a = s a"
    unfolding body using sc(2) ba ga by simp
qed

text \<open>
  The whole second pass: the value cell \<open>k * P + i\<close> of \<^verbatim>\<open>y\<close> has at the end is the one
  it was given in turn \<open>i\<close>; no later turn assigns it again.
\<close>

lemma pass2_assigns:
  assumes L: "plan_layout q priv" and F: "subplans_frame env q priv"
    and i: "i < mr_P q" and k: "k < unat (mr_Q q)"
  shows "for_loop 0 (mr_P q) (pass2_body env q) s (buf_y q + (k * unat (mr_P q) + unat i))
           = fft_execute env (subplans q ! 1)
               (for_loop 0 (mr_Q q) (pass2_gather q i) (for_loop 0 i (pass2_body env q) s))
               (mr_t1 q + k)"
proof -
  let ?P = "unat (mr_P q)" and ?Q = "unat (mr_Q q)" and ?N = "unat (nfft q)"
  let ?X = "blk (mr_x q) ?N" and ?T0 = "blk (mr_t0 q) (t_len q)"
  let ?T1 = "blk (mr_t1 q) (t_len q)" and ?TW = "blk (twiddle q) ?N"
  let ?Y = "blk (buf_y q) ?N"
  let ?a = "buf_y q + (k * ?P + unat i)"
  from L have PQ: "?P * ?Q = ?N"
    and Y: "?Y \<inter> (?X \<union> ?T0 \<union> ?T1 \<union> ?TW \<union> priv) = {}"
    by (simp_all add: plan_layout_def)
  from Y have Y0: "?Y \<inter> ?T0 = {}" and Y1: "?Y \<inter> ?T1 = {}" and Yp: "?Y \<inter> priv = {}"
    by blast+
  have iP: "unat i < ?P" using i by (simp add: uint_less_unat)
  have m: "?a \<in> ?Y" using nat_index_bound [OF iP k] PQ by (simp add: blk_offset mult.commute)
  let ?si = "for_loop 0 i (pass2_body env q) s"
  let ?sj = "pass2_body env q i ?si"
  have suc: "unat (i + 1) = Suc (unat i)" using i by (rule uint_succ)
  have le: "i + 1 \<le> mr_P q" using i suc by (simp add: uint_le_unat uint_less_unat)
  have "for_loop 0 (mr_P q) (pass2_body env q) s = for_loop i (mr_P q) (pass2_body env q) ?si"
    using i by (intro for_loop_split) simp_all
  also have "\<dots> = for_loop (i + 1) (mr_P q) (pass2_body env q) ?sj"
    using i by (rule for_loop_step)
  finally have cut: "for_loop 0 (mr_P q) (pass2_body env q) s
                       = for_loop (i + 1) (mr_P q) (pass2_body env q) ?sj" .
  have "for_loop (i + 1) (mr_P q) (pass2_body env q) ?sj ?a = ?sj ?a"
  proof (rule for_loop_rule_from [where I = "\<lambda>j s'. s' ?a = ?sj ?a"])
    show "?sj ?a = ?sj ?a" ..
  next
    show "i + 1 \<le> mr_P q" by (rule le)
  next
    fix j s' assume ij: "i + 1 \<le> j" and j: "j < mr_P q" and inv: "s' ?a = ?sj ?a"
    from ij suc have ne: "unat i \<noteq> unat j" by (simp add: uint_le_unat)
    have jP: "unat j < ?P" using j by (simp add: uint_less_unat)
    have "?a \<noteq> buf_y q + (k' * ?P + unat j)" for k'
    proof
      assume "?a = buf_y q + (k' * ?P + unat j)"
      then have "k * ?P + unat i = k' * ?P + unat j" by simp
      with transpose_nat_inj [OF iP jP] ne show False by blast
    qed
    then have "pass2_body env q j s' ?a = s' ?a"
      using notin_disjoint [OF Y0 m] notin_disjoint [OF Y1 m] notin_disjoint [OF Yp m]
        pass2_body_assigns(2) [OF L F j, of s']
      by simp
    with inv show "pass2_body env q j s' ?a = ?sj ?a" by simp
  qed
  with cut have "for_loop 0 (mr_P q) (pass2_body env q) s ?a = ?sj ?a" by simp
  also have "?sj ?a = fft_execute env (subplans q ! 1)
               (for_loop 0 (mr_Q q) (pass2_gather q i) ?si) (mr_t1 q + k)"
    using pass2_body_assigns(1) [OF L F i, of ?si] k by simp
  finally show ?thesis .
qed

lemma pass2_frame:
  assumes L: "plan_layout q priv" and F: "subplans_frame env q priv"
  shows "\<forall>a. a \<notin> blk (buf_y q) (unat (nfft q)) \<union> blk (mr_t0 q) (t_len q)
                  \<union> blk (mr_t1 q) (t_len q) \<union> priv
           \<longrightarrow> for_loop 0 (mr_P q) (pass2_body env q) s a = s a"
proof (rule for_loop_frame)
  fix i s' assume i: "i < mr_P q"
  let ?P = "unat (mr_P q)" and ?Q = "unat (mr_Q q)" and ?N = "unat (nfft q)"
  from L have PQ: "?P * ?Q = ?N" by (simp add: plan_layout_def)
  have iP: "unat i < ?P" using i by (simp add: uint_less_unat)
  have yin: "buf_y q + (k * ?P + unat i) \<in> blk (buf_y q) ?N" if "k < ?Q" for k
    using nat_index_bound [OF iP that] PQ by (simp add: blk_offset mult.commute)
  show "\<forall>a. a \<notin> blk (buf_y q) ?N \<union> blk (mr_t0 q) (t_len q) \<union> blk (mr_t1 q) (t_len q) \<union> priv
           \<longrightarrow> pass2_body env q i s' a = s' a"
  proof (intro allI impI)
    fix a
    assume a: "a \<notin> blk (buf_y q) ?N \<union> blk (mr_t0 q) (t_len q) \<union> blk (mr_t1 q) (t_len q) \<union> priv"
    then have "a \<notin> blk (buf_y q) ?N" by simp
    with yin have "\<forall>k<?Q. a \<noteq> buf_y q + (k * ?P + unat i)" by metis
    with a pass2_body_assigns(2) [OF L F i, of s'] show "pass2_body env q i s' a = s' a"
      by simp
  qed
qed

text \<open>
  Claim C9. In pass 2 of a plan with \<open>P * Q = N\<close>, the map from the loop indices
  \<open>(i, k)\<close>, \<open>i < P\<close>, \<open>k < Q\<close>, to the output offset \<^verbatim>\<open>k*P+i\<close> is a bijection onto
  \<open>[0, N)\<close>. The assignment of line 192 in turn \<open>(i, k)\<close> writes the one cell
  \<open>y + (k * P + i)\<close>, computed without wrap-around and inside the buffer. The cells
  assigned by one run of the executor, in order, are \<open>N\<close> pairwise different cells that
  make up the output buffer, so every output cell is assigned exactly once. When the
  layout is sound and the sub-plans write only to their output, their input and their
  own cells, the value an output cell has when the executor returns is the one it was
  given in its turn, what the \<open>Q\<close>-point sub-plan left in \<^verbatim>\<open>t1[k]\<close> in turn \<open>i\<close>; and apart
  from the output buffer the second pass changes only the two scratch buffers and the
  cells the sub-plans own.
\<close>

theorem pass2_writes_each_output_once:
  assumes PQ: "unat (mr_P q) * unat (mr_Q q) = unat (nfft q)"
  shows "bij_betw (\<lambda>(i, k). unat (transpose_index (mr_P q) i k))
           ({i. i < mr_P q} \<times> {k. k < mr_Q q}) {..<unat (nfft q)} \<and>
         distinct (pass2_write_trace q) \<and>
         set (pass2_write_trace q) = {..<unat (nfft q)} \<and>
         length (pass2_write_trace q) = unat (nfft q) \<and>
         (\<forall>i k s. i < mr_P q \<and> k < mr_Q q \<longrightarrow>
            unat (transpose_index (mr_P q) i k) = unat k * unat (mr_P q) + unat i \<and>
            unat (transpose_index (mr_P q) i k) < unat (nfft q) \<and>
            pass2_transpose q i k s
              = s(buf_y q + (unat k * unat (mr_P q) + unat i) := s (mr_t1 q + unat k))) \<and>
         (\<forall>i k s w. pass2_transpose_logged q i k (s, w)
            = (pass2_transpose q i k s, w @ [buf_y q + unat (transpose_index (mr_P q) i k)])) \<and>
         fst (execute_logged env q s) = execute_mixed_radix env q s \<and>
         snd (execute_logged env q s) = map ((+) (buf_y q)) (pass2_write_trace q) \<and>
         distinct (snd (execute_logged env q s)) \<and>
         set (snd (execute_logged env q s)) = blk (buf_y q) (unat (nfft q)) \<and>
         length (snd (execute_logged env q s)) = unat (nfft q) \<and>
         (plan_layout q priv \<and> subplans_frame env q priv \<longrightarrow>
            (\<forall>i k. i < mr_P q \<and> k < mr_Q q \<longrightarrow>
               execute_mixed_radix env q s (buf_y q + unat (transpose_index (mr_P q) i k))
                 = fft_execute env (subplans q ! 1)
                     (for_loop 0 (mr_Q q) (pass2_gather q i)
                        (for_loop 0 i (pass2_body env q)
                           (for_loop 0 (mr_Q q) (pass1_body env q)
                              (memmove (mr_x q) (buf_x q) (unat (nfft q)) s))))
                     (mr_t1 q + unat k)) \<and>
            (\<forall>s0 a. a \<notin> blk (buf_y q) (unat (nfft q)) \<union> blk (mr_t0 q) (t_len q)
                          \<union> blk (mr_t1 q) (t_len q) \<union> priv
               \<longrightarrow> for_loop 0 (mr_P q) (pass2_body env q) s0 a = s0 a))"
proof -
  note t = pass2_trace [OF PQ]
  note g = execute_log [OF PQ, of env s]
  have ix: "unat (transpose_index (mr_P q) i k) = unat k * unat (mr_P q) + unat i \<and>
            unat (transpose_index (mr_P q) i k) < unat (nfft q) \<and>
            pass2_transpose q i k s
              = s(buf_y q + (unat k * unat (mr_P q) + unat i) := s (mr_t1 q + unat k))"
    if "i < mr_P q \<and> k < mr_Q q" for i k and s :: store
  proof -
    from that have i: "i < mr_P q" and k: "k < mr_Q q" by simp_all
    note e = transpose_index_unat [OF PQ i k]
    from e show ?thesis by (simp add: pass2_transpose_def)
  qed
  have lg: "pass2_transpose_logged q i k (s, w)
            = (pass2_transpose q i k s, w @ [buf_y q + unat (transpose_index (mr_P q) i k)])"
    for i k w and s :: store
    by (simp add: pass2_transpose_logged_def)
  have ef: "execute_mixed_radix env q s (buf_y q + unat (transpose_index (mr_P q) i k))
              = fft_execute env (subplans q ! 1)
                  (for_loop 0 (mr_Q q) (pass2_gather q i)
                     (for_loop 0 i (pass2_body env q)
                        (for_loop 0 (mr_Q q) (pass1_body env q)
                           (memmove (mr_x q) (buf_x q) (unat (nfft q)) s))))
                  (mr_t1 q + unat k)"
    if LF: "plan_layout q priv \<and> subplans_frame env q priv" and ik: "i < mr_P q \<and> k < mr_Q q"
    for i k
  proof -
    from LF have L: "plan_layout q priv" and F: "subplans_frame env q priv" by simp_all
    from ik have i: "i < mr_P q" and k: "k < mr_Q q" by simp_all
    from k have k': "unat k < unat (mr_Q q)" by (simp add: uint_less_unat)
    have e: "unat (transpose_index (mr_P q) i k) = unat k * unat (mr_P q) + unat i"
      using PQ i k by (rule transpose_index_unat)
    show ?thesis
      unfolding e execute_mixed_radix_def Let_def by (rule pass2_assigns [OF L F i k'])
  qed
  have fr: "for_loop 0 (mr_P q) (pass2_body env q) s0 a = s0 a"
    if LF: "plan_layout q priv \<and> subplans_frame env q priv"
      and a: "a \<notin> blk (buf_y q) (unat (nfft q)) \<union> blk (mr_t0 q) (t_len q)
                          \<union> blk (mr_t1 q) (t_len q) \<union> priv"
    for s0 a
  proof -
    from LF have L: "plan_layout q priv" and F: "subplans_frame env q priv" by simp_all
    from pass2_frame [OF L F, of s0] a show ?thesis by blast
  qed
  show ?thesis
    apply (intro conjI allI impI)
    apply (rule transpose_index_bij [OF PQ])
    apply (rule t(1))
    apply (rule t(2))
    apply (rule t(3))
    apply (erule ix [THEN conjunct1])
    apply (erule ix [THEN conjunct2, THEN conjunct1])
    apply (erule ix [THEN conjunct2, THEN conjunct2])
    apply (rule lg)
    apply (rule execute_logged_fst)
    apply (rule execute_logged_snd)
    apply (rule g(1))
    apply (rule g(2))
    apply (rule g(3))
    apply (erule ef, assumption)
    apply (erule fr, assumption)
    done
qed

theorem pass2_writes_each_output_once_witness:
  "\<exists>q h'. create_plan_mixed_radix ref_env 6 0 6 1 0 heap0 = Inr (q, h') \<and>
      pass2_write_trace q = [0, 3, 1, 4, 2, 5] \<and> distinct (pass2_write_trace q) \<and>
      set (pass2_write_trace q) = {..<6} \<and>
      fst (execute_logged ref_env q (cells h')) = execute_mixed_radix ref_env q (cells h') \<and>
      snd (execute_logged ref_env q (cells h')) = [6, 9, 7, 10, 8, 11] \<and>
      distinct (snd (execute_logged ref_env q (cells h'))) \<and>
      set (snd (execute_logged ref_env q (cells h'))) = blk 6 6 \<and>
      for_loop 0 (mr_P q) (pass2_body ref_env q) (cells h') 5 = cells h' 5"
proof -
  from build6 obtain q h' where r: "create_plan_mixed_radix ref_env 6 0 6 1 0 heap0 = Inr (q, h')"
    and f: "nfft q = 6" "mr_P q = 3" "mr_Q q = 2" by blast
  note g = create_plan_Inr_fields [OF r] ref_build [OF r]
  have tl: "t_len q = 3" using f by (simp add: t_len_def)
  have y: "buf_y q = 6" and t0: "mr_t0 q = 100" and t1: "mr_t1 q = 103"
    using g tl by (simp_all add: heap0_def)
  have L: "plan_layout q {}" using r by (rule ref_build_layout) (simp add: heap0_def)
  have F: "subplans_frame ref_env q {}" using r by (rule ref_build_frame)
  have PQ: "unat (mr_P q) * unat (mr_Q q) = unat (nfft q)" using f by simp
  note t = pass2_writes_each_output_once [OF PQ, of ref_env "cells h'" "{}"]
  have tr: "pass2_write_trace q = [0, 3, 1, 4, 2, 5]"
    by (simp add: pass2_write_trace_def f for_loop.simps transpose_index_def)
  from t have a: "distinct (pass2_write_trace q)" "set (pass2_write_trace q) = {..<unat (nfft q)}"
    "fst (execute_logged ref_env q (cells h')) = execute_mixed_radix ref_env q (cells h')"
    "snd (execute_logged ref_env q (cells h')) = map ((+) (buf_y q)) (pass2_write_trace q)"
    "distinct (snd (execute_logged ref_env q (cells h')))"
    "set (snd (execute_logged ref_env q (cells h'))) = blk (buf_y q) (unat (nfft q))"
    by blast+
  from t L F have fr: "\<forall>s0 a. a \<notin> blk (buf_y q) (unat (nfft q)) \<union> blk (mr_t0 q) (t_len q)
                       \<union> blk (mr_t1 q) (t_len q) \<union> {}
            \<longrightarrow> for_loop 0 (mr_P q) (pass2_body ref_env q) s0 a = s0 a"
    by blast
  have "(5::nat) \<notin> blk (buf_y q) (unat (nfft q)) \<union> blk (mr_t0 q) (t_len q)
                       \<union> blk (mr_t1 q) (t_len q) \<union> {}"
    by (simp add: y t0 t1 tl f blk_def)
  with fr have e5: "for_loop 0 (mr_P q) (pass2_body ref_env q) (cells h') 5 = cells h' 5"
    by blast
  from a(4) have lg: "snd (execute_logged ref_env q (cells h')) = [6, 9, 7, 10, 8, 11]"
    by (simp add: tr y)
  from r tr a(1,3,5) a(2) a(6) lg e5 show ?thesis by (simp add: f y)
qed

section \<open>What the builder hands to the executor\<close>

text \<open>
  The executor's theorems are stated for any plan with a sound layout and a filled
  twiddle table. A plan made by the builder is one: when the factory only allocates
  and the caller's output buffer was allocated before the call, the layout is sound,
  with the cells between the staging buffer and the twiddle table as the sub-plans'
  own; and where the arithmetic of line 111 is exact, the heap the builder returns
  holds the twiddle table of the stored direction.
\<close>

lemma factory_growsD:
  "factory_grows env \<Longrightarrow> fft_create_plan env n x y d f h = (sp, h') \<Longrightarrow> brk h \<le> brk h'"
  by (metis factory_grows_def snd_conv)

lemma create_plan_layout:
  assumes r: "create_plan_mixed_radix env n x y dir fl h = Inr (q, h')"
    and g: "factory_grows env" and y: "y + unat n \<le> brk h"
  shows "plan_layout q (blk (mr_x q + unat n) (twiddle q - (mr_x q + unat n)))"
proof -
  note f = create_plan_Inr_fields [OF r]
  have PQ: "unat (mr_P q) * unat (mr_Q q) = unat (nfft q)"
    unfolding f using first_factor_props(3) [OF f(1)] by (rule uint_div_mult_exact)
  have a: "mr_t0 q = brk h \<and> mr_t1 q = brk h + t_len q \<and> mr_x q = brk h + 2 * t_len q \<and>
        mr_x q + unat n \<le> twiddle q"
    using r f(1) factory_growsD [OF g]
    by (auto simp: create_plan_mixed_radix_def Let_def malloc_TC_def malloc_struct_def
        t_len_def split: prod.splits dest!: factory_growsD [OF g])
  with PQ y f(2,4) show ?thesis
    by (auto simp: plan_layout_def blk_def)
qed

lemma create_plan_twiddle_ok:
  assumes "create_plan_mixed_radix env n x y dir fl h = Inr (q, h')" and "exact_arith env"
  shows "twiddle_ok q (plan_sign env q) (cells h')"
  using create_plan_twiddle_exact [OF assms(1) _ assms(2)]
    create_plan_Inr_fields(2) [OF assms(1)]
  by (simp add: twiddle_ok_def plan_sign_def)

section \<open>The executor computes the direct transform\<close>

lemma execute_dft:
  assumes L: "plan_layout q priv" and F: "subplans_frame env q priv"
    and D: "subplans_dft env q d priv intact" and d: "d = 1 \<or> d = - 1"
    and tw: "twiddle_ok q d s" and ok: "intact s" and m: "m < unat (nfft q)"
  shows "execute_mixed_radix env q s (buf_y q + m)
           = dft d (unat (nfft q)) (\<lambda>n. s (buf_x q + n)) m"
proof -
  let ?P = "unat (mr_P q)" and ?Q = "unat (mr_Q q)" and ?N = "unat (nfft q)"
  let ?X = "blk (mr_x q) ?N" and ?TW = "blk (twiddle q) ?N"
  let ?f = "\<lambda>n. s (buf_x q + n)"
  from L have PQ: "?P * ?Q = ?N" and XW: "?X \<inter> ?TW = {}" and Xp: "?X \<inter> priv = {}"
    by (simp_all add: plan_layout_def)
  from D have loc: "\<And>s s'. intact s \<Longrightarrow> (\<forall>a\<in>priv. s' a = s a) \<Longrightarrow> intact s'"
    by (simp add: subplans_dft_def) blast
  from m PQ have P: "0 < ?P" and Q: "0 < ?Q" by (cases "?P = 0"; cases "?Q = 0"; simp)+
  let ?s1 = "memmove (mr_x q) (buf_x q) ?N s"
  let ?s2 = "for_loop 0 (mr_Q q) (pass1_body env q) ?s1"
  let ?s3 = "for_loop 0 (mr_P q) (pass2_body env q) ?s2"
  have ex: "execute_mixed_radix env q s = ?s3"
    by (simp add: execute_mixed_radix_def Let_def)
  have ok1: "intact ?s1"
  proof (rule loc [OF ok], rule ballI)
    fix a assume "a \<in> priv"
    with Xp have "a \<notin> ?X" by (rule notin_disjoint')
    then show "?s1 a = s a" by (rule memmove_frame)
  qed
  have x1: "?s1 (mr_x q + (?Q * k + i)) = ?f (?Q * k + i)" if "i < ?Q" "k < ?P" for i k
    using nat_index_bound [OF that] PQ by (simp add: memmove_copy)
  have w1: "?s1 (twiddle q + i * k) = unity_root d ?N ^ (i * k)" if "i < ?Q" "k < ?P" for i k
  proof -
    have "i * k < ?Q * ?P" using that by (intro mult_strict_mono') simp_all
    with PQ have lt: "i * k < ?N" by (simp add: mult.commute)
    then have "twiddle q + i * k \<in> ?TW" by (rule blk_offset)
    with XW have "twiddle q + i * k \<notin> ?X" by (rule notin_disjoint')
    then have "?s1 (twiddle q + i * k) = s (twiddle q + i * k)" by (rule memmove_frame)
    also have "\<dots> = unity_root d ?N ^ (i * k)"
      using tw lt by (simp only: twiddle_ok_def unity_root_power)
    finally show ?thesis .
  qed
  note p1 = pass1_effect [OF L F D ok1]
  note p2 = pass2_effect [OF L F D p1(2)]
  have x2: "?s2 (mr_x q + (?Q * i + l))
              = dft d ?P (\<lambda>m. ?f (?Q * m + l)) i * unity_root d (?P * ?Q) ^ (l * i)"
    if "l < ?Q" "i < ?P" for i l
  proof -
    have "?s2 (mr_x q + (?Q * i + l))
            = dft d ?P (\<lambda>m. ?s1 (mr_x q + (?Q * m + l))) i * ?s1 (twiddle q + l * i)"
      using p1(1) that by simp
    also have "dft d ?P (\<lambda>m. ?s1 (mr_x q + (?Q * m + l))) i = dft d ?P (\<lambda>m. ?f (?Q * m + l)) i"
      using x1 [OF that(1)] by (intro dft_cong) simp
    also have "?s1 (twiddle q + l * i) = unity_root d (?P * ?Q) ^ (l * i)"
      using w1 [OF that] PQ by simp
    finally show ?thesis .
  qed
  have out: "?s3 (buf_y q + (k * ?P + i)) = dft d (?P * ?Q) ?f (k * ?P + i)"
    if "i < ?P" "k < ?Q" for i k
  proof -
    have "?s3 (buf_y q + (k * ?P + i)) = dft d ?Q (\<lambda>l. ?s2 (mr_x q + (?Q * i + l))) k"
      using p2(1) that by simp
    also have "\<dots> = dft d ?Q
        (\<lambda>l. dft d ?P (\<lambda>m. ?f (?Q * m + l)) i * unity_root d (?P * ?Q) ^ (l * i)) k"
      using x2 [OF _ that(1)] by (intro dft_cong) simp
    also have "\<dots> = dft d (?P * ?Q) ?f (k * ?P + i)"
      using d P Q by (rule cooley_tukey)
    finally show ?thesis .
  qed
  have "m mod ?P < ?P" using P by simp
  moreover have "m div ?P < ?Q" using m PQ P by (simp add: less_mult_imp_div_less mult.commute)
  ultimately have "?s3 (buf_y q + (m div ?P * ?P + m mod ?P))
      = dft d (?P * ?Q) ?f (m div ?P * ?P + m mod ?P)"
    by (rule out)
  then show ?thesis unfolding ex using PQ by simp
qed

text \<open>
  Claim C1. Take a plan whose layout is sound (\<open>N = P * Q\<close>, so in particular every
  composite \<open>N\<close> with its factors) and whose stored direction is \<^verbatim>\<open>FFT_FORWARD\<close>, a store
  in which its twiddle table holds the forward exponentials, and sub-plans that compute
  the exact \<open>P\<close>-point and \<open>Q\<close>-point forward transforms from \<^verbatim>\<open>t0\<close> into \<^verbatim>\<open>t1\<close>. Then,
  whatever the \<open>N\<close> cells of the input buffer hold, after one run of the executor cell
  \<open>m\<close> of the output buffer holds the sum over \<open>n < N\<close> of
  \<open>input[n] * exp (- 2 \<pi> \<i> m n / N)\<close>, over exact complex arithmetic.
\<close>

theorem execute_forward_is_dft:
  assumes "plan_layout q priv" and "subplans_frame env q priv"
    and "direction q = FFT_FORWARD env"
    and "subplans_dft env q (plan_sign env q) priv intact"
    and "twiddle_ok q (plan_sign env q) s" and "intact s" and "m < unat (nfft q)"
  shows "execute_mixed_radix env q s (buf_y q + m)
           = (\<Sum>n<unat (nfft q). s (buf_x q + n)
                * exp (- (2 * complex_of_real pi * \<i> * of_nat m * of_nat n / of_nat (unat (nfft q)))))"
proof -
  from assms(3) have sg: "plan_sign env q = - 1" by (simp add: plan_sign_def)
  have "execute_mixed_radix env q s (buf_y q + m)
          = dft (- 1) (unat (nfft q)) (\<lambda>n. s (buf_x q + n)) m"
    using assms(1,2) assms(4) [unfolded sg] _ assms(5) [unfolded sg] assms(6,7)
    by (rule execute_dft) simp
  also have "\<dots> = (\<Sum>n<unat (nfft q). s (buf_x q + n)
                * exp (- (2 * complex_of_real pi * \<i> * of_nat m * of_nat n / of_nat (unat (nfft q)))))"
    unfolding dft_def by (intro sum.cong refl arg_cong2 [where f = "(*)"] arg_cong [where f = exp]) simp
  finally show ?thesis .
qed

lemma ref_build_dft:
  assumes "create_plan_mixed_radix ref_env n x y dir fl h = Inr (q, h')"
  shows "subplans_dft ref_env q (plan_sign ref_env q) {} (\<lambda>s. True)"
proof -
  have "plan_sign ref_env q = (if direction q = 1 then - 1 else 1)"
    by (simp add: plan_sign_def ref_env_def)
  then show ?thesis
    using direct_execute_dft [of _ "mr_t0 q" "mr_t1 q" "direction q"]
    by (simp add: subplans_dft_def ref_build(5) [OF assms] ref_env_def)
qed

theorem execute_forward_is_dft_witness:
  "\<exists>q h'. create_plan_mixed_radix ref_env 6 0 6 1 0 heap0 = Inr (q, h') \<and>
     direction q = FFT_FORWARD ref_env \<and> buf_x q = 0 \<and> buf_y q = 6 \<and>
     execute_mixed_radix ref_env q
       (\<lambda>a. if a = 0 then 1 else if a < 6 then 0 else cells h' a) 6 = 1 \<and>
     execute_mixed_radix ref_env q
       (\<lambda>a. if a = 0 then 1 else if a < 6 then 0 else cells h' a) 7 = 1 \<and>
     execute_mixed_radix ref_env q
       (\<lambda>a. if a = 0 then 1 else if a < 6 then 0 else cells h' a) 8 = 1 \<and>
     execute_mixed_radix ref_env q
       (\<lambda>a. if a = 0 then 1 else if a < 6 then 0 else cells h' a) 9 = 1 \<and>
     execute_mixed_radix ref_env q
       (\<lambda>a. if a = 0 then 1 else if a < 6 then 0 else cells h' a) 10 = 1 \<and>
     execute_mixed_radix ref_env q
       (\<lambda>a. if a = 0 then 1 else if a < 6 then 0 else cells h' a) 11 = 1"
proof -
  from build6 obtain q h' where r: "create_plan_mixed_radix ref_env 6 0 6 1 0 heap0 = Inr (q, h')"
    and f: "nfft q = 6" "mr_P q = 3" "mr_Q q = 2" by blast
  note g = create_plan_Inr_fields [OF r] ref_build [OF r]
  let ?s = "\<lambda>a. if a = 0 then 1 else if a < 6 then 0 else cells h' a"
  have tl: "t_len q = 3" using f by (simp add: t_len_def)
  have x: "buf_x q = 0" and y: "buf_y q = 6" and tw: "twiddle q = 112"
    using g tl by (simp_all add: heap0_def)
  have dir: "direction q = FFT_FORWARD ref_env" using g(5) by (simp add: ref_env_def)
  have L: "plan_layout q {}" using r by (rule ref_build_layout) (simp add: heap0_def)
  have F: "subplans_frame ref_env q {}" using r by (rule ref_build_frame)
  have D: "subplans_dft ref_env q (plan_sign ref_env q) {} (\<lambda>s. True)"
    using r by (rule ref_build_dft)
  have T: "twiddle_ok q (plan_sign ref_env q) ?s"
    using create_plan_twiddle_ok [OF r exact_arith_ref_env] by (simp add: twiddle_ok_def tw)
  have "execute_mixed_radix ref_env q ?s (buf_y q + m) = 1" if "m < 6" for m
  proof -
    from that f have "m < unat (nfft q)" by simp
    from execute_forward_is_dft [OF L F dir D T TrueI this]
    have "execute_mixed_radix ref_env q ?s (buf_y q + m)
            = (\<Sum>n<6. ?s n * exp (- (2 * complex_of_real pi * \<i> * of_nat m * of_nat n / of_nat 6)))"
      by (simp add: f x cong: if_cong)
    also have "\<dots> = (\<Sum>n<6::nat. if n = 0 then 1 else 0)"
      by (intro sum.cong refl) simp
    also have "\<dots> = 1" by simp
    finally show ?thesis .
  qed
  from this [of 0] this [of 1] this [of 2] this [of 3] this [of 4] this [of 5] r dir x y
  show ?thesis by (intro exI [of _ q] exI [of _ h']) simp
qed

section \<open>Inverting the direct transform\<close>

lemma unity_root_cis: "unity_root d n = cis (d * 2 * pi / real n)"
proof -
  have "\<i> * complex_of_real d * 2 * complex_of_real pi / of_nat n
          = \<i> * complex_of_real (d * 2 * pi / real n)"
    by simp
  then show ?thesis by (simp only: unity_root_def cis_conv_exp)
qed

lemma unity_root_inverse: "unity_root (- 1) n = inverse (unity_root 1 n)"
  by (simp add: unity_root_cis)

lemma unity_root_power_neq_1:
  assumes "0 < j" and "j < n"
  shows "unity_root 1 n ^ j \<noteq> 1"
proof
  assume "unity_root 1 n ^ j = 1"
  then have "cis (real j * (2 * pi / real n)) = 1"
    by (simp add: unity_root_cis DeMoivre)
  then have "cos (real j * (2 * pi / real n)) = 1"
    by (simp add: complex_eq_iff)
  then obtain z :: int where z: "real j * (2 * pi / real n) = of_int z * 2 * pi"
    by (auto simp: cos_one_2pi_int)
  from assms have n: "0 < real n" by simp
  from z n have "real j = of_int z * real n"
    by (simp add: field_simps)
  then have "int j = z * int n" by (metis of_int_eq_iff of_int_mult of_int_of_nat_eq)
  with assms show False
    by (metis dvd_triv_right int_dvd_int_iff nat_dvd_not_less)
qed

lemma unity_root_sum_zero:
  assumes "r ^ n = 1" and "r \<noteq> (1::complex)"
  shows "(\<Sum>m<n. r ^ m) = 0"
  using assms by (simp add: geometric_sum)

lemma dft_roundtrip:
  assumes k: "k < n"
  shows "dft 1 n (dft (- 1) n f) k = of_nat n * f k"
proof -
  let ?w = "unity_root 1 n" and ?v = "unity_root (- 1) n"
  from k have n: "0 < n" by simp
  have wn: "?w ^ n = 1" using n by (intro unity_root_full) simp_all
  have w0: "?w \<noteq> 0" by (simp add: unity_root_cis)
  have v: "?v = inverse ?w" by (rule unity_root_inverse)
  have inner: "(\<Sum>m<n. ?v ^ (m * j) * ?w ^ (k * m)) = (if j = k then of_nat n else 0)"
    if j: "j < n" for j
  proof -
    let ?r = "?v ^ j * ?w ^ k"
    have e: "?v ^ (m * j) * ?w ^ (k * m) = ?r ^ m" for m
      by (simp add: power_mult power_mult_distrib mult.commute)
    have rn: "?r ^ n = 1"
    proof -
      have "?r ^ n = (?v ^ n) ^ j * (?w ^ n) ^ k"
        by (simp add: power_mult_distrib power_mult [symmetric] mult.commute)
      also have "?v ^ n = 1" using wn by (simp add: v power_inverse)
      finally show ?thesis using wn by simp
    qed
    show ?thesis
    proof (cases "j = k")
      case True
      then have r1: "?r = 1" using w0 by (simp add: v power_inverse)
      have "(\<Sum>m<n. ?v ^ (m * j) * ?w ^ (k * m)) = (\<Sum>m<n. ?r ^ m)" by (simp only: e)
      also have "\<dots> = of_nat n" by (simp only: r1) simp
      finally show ?thesis using True by simp
    next
      case False
      have "?r \<noteq> 1"
      proof (cases "j < k")
        case True
        then have "?w ^ k = ?w ^ j * ?w ^ (k - j)" by (simp add: power_add [symmetric])
        then have "?r = ?w ^ (k - j)" using w0 by (simp add: v power_inverse)
        moreover have "?w ^ (k - j) \<noteq> 1"
          using True k by (intro unity_root_power_neq_1) simp_all
        ultimately show ?thesis by simp
      next
        case gt: False
        with False have lt: "k < j" by simp
        then have "?w ^ j = ?w ^ k * ?w ^ (j - k)" by (simp add: power_add [symmetric])
        then have "?r = inverse (?w ^ (j - k))" using w0 by (simp add: v power_inverse)
        moreover have "?w ^ (j - k) \<noteq> 1"
          using lt j by (intro unity_root_power_neq_1) simp_all
        ultimately show ?thesis by simp
      qed
      with rn have "(\<Sum>m<n. ?r ^ m) = 0" by (rule unity_root_sum_zero)
      then have "(\<Sum>m<n. ?v ^ (m * j) * ?w ^ (k * m)) = 0" by (simp only: e)
      with False show ?thesis by simp
    qed
  qed
  have "dft 1 n (dft (- 1) n f) k = (\<Sum>m<n. (\<Sum>j<n. f j * ?v ^ (m * j)) * ?w ^ (k * m))"
    by (simp only: dft_unity_root)
  also have "\<dots> = (\<Sum>m<n. \<Sum>j<n. f j * (?v ^ (m * j) * ?w ^ (k * m)))"
    by (simp add: sum_distrib_right mult.assoc)
  also have "\<dots> = (\<Sum>j<n. \<Sum>m<n. f j * (?v ^ (m * j) * ?w ^ (k * m)))"
    by (rule sum.swap)
  also have "\<dots> = (\<Sum>j<n. f j * (\<Sum>m<n. ?v ^ (m * j) * ?w ^ (k * m)))"
    by (simp only: sum_distrib_left)
  also have "\<dots> = (\<Sum>j<n. f j * (if j = k then of_nat n else 0))"
    using inner by (intro sum.cong refl) simp
  also have "\<dots> = (\<Sum>j<n. if j = k then of_nat n * f k else 0)"
    by (intro sum.cong refl) simp
  also have "\<dots> = of_nat n * f k" using k by simp
  finally show ?thesis .
qed

section \<open>Forward, then inverse\<close>

text \<open>
  Claim C5. Take a forward plan and an inverse plan of the same size \<open>N\<close>, the inverse
  plan reading the buffer the forward plan writes, each with a sound layout, its own
  twiddle table in the store and sub-plans that compute the exact unnormalised
  transforms of its direction; the forward run is assumed not to write into the inverse
  plan's twiddle table or its sub-plans' cells. Running the forward plan and then the
  inverse plan leaves in cell \<open>k\<close> of the inverse plan's output \<open>N\<close> times what cell
  \<open>k\<close> of the forward plan's input held: the composition is not normalised.
\<close>

theorem forward_then_inverse_scales_by_N:
  assumes LF: "plan_layout qF privF" and FF: "subplans_frame env qF privF"
    and DF: "subplans_dft env qF (plan_sign env qF) privF intactF"
    and LI: "plan_layout qI privI" and FI: "subplans_frame env qI privI"
    and DI: "subplans_dft env qI (plan_sign env qI) privI intactI"
    and dirF: "direction qF = FFT_FORWARD env" and dirI: "direction qI \<noteq> FFT_FORWARD env"
    and size: "nfft qI = nfft qF" and chain: "buf_x qI = buf_y qF"
    and sep: "(blk (twiddle qI) (unat (nfft qI)) \<union> privI) \<inter> exec_writes qF privF = {}"
    and twF: "twiddle_ok qF (plan_sign env qF) s" and okF: "intactF s"
    and twI: "twiddle_ok qI (plan_sign env qI) s" and okI: "intactI s"
    and k: "k < unat (nfft qF)"
  shows "execute_mixed_radix env qI (execute_mixed_radix env qF s) (buf_y qI + k)
           = of_nat (unat (nfft qF)) * s (buf_x qF + k)"
proof -
  let ?N = "unat (nfft qF)"
  let ?s1 = "execute_mixed_radix env qF s"
  let ?f = "\<lambda>n. s (buf_x qF + n)"
  from dirF have sF: "plan_sign env qF = - 1" by (simp add: plan_sign_def)
  from dirI have sI: "plan_sign env qI = 1" by (simp add: plan_sign_def)
  from LF have PQ: "unat (mr_P qF) * unat (mr_Q qF) = unat (nfft qF)"
    by (simp add: plan_layout_def)
  from DI have loc: "\<And>s s'. intactI s \<Longrightarrow> (\<forall>a\<in>privI. s' a = s a) \<Longrightarrow> intactI s'"
    by (simp add: subplans_dft_def) blast
  have A: "?s1 (buf_y qF + m) = dft (- 1) ?N ?f m" if "m < ?N" for m
    using LF FF DF [unfolded sF] _ twF [unfolded sF] okF that
    by (rule execute_dft) simp
  have B: "?s1 a = s a" if "a \<notin> exec_writes qF privF" for a
    using PQ FF that by (rule execute_frame_aux)
  have twI1: "twiddle_ok qI 1 ?s1"
    unfolding twiddle_ok_def
  proof (intro allI impI)
    fix i assume i: "i < unat (nfft qI)"
    then have "twiddle qI + i \<in> blk (twiddle qI) (unat (nfft qI))" by (rule blk_offset)
    with sep have "twiddle qI + i \<notin> exec_writes qF privF" by blast
    then have "?s1 (twiddle qI + i) = s (twiddle qI + i)" by (rule B)
    with twI [unfolded sI] i show "?s1 (twiddle qI + i) =
        exp (\<i> * complex_of_real 1 * 2 * complex_of_real pi * of_nat i / of_nat (unat (nfft qI)))"
      by (simp only: twiddle_ok_def)
  qed
  have okI1: "intactI ?s1"
  proof (rule loc [OF okI], rule ballI)
    fix a assume "a \<in> privI"
    with sep have "a \<notin> exec_writes qF privF" by blast
    then show "?s1 a = s a" by (rule B)
  qed
  from k size have k': "k < unat (nfft qI)" by simp
  have "execute_mixed_radix env qI ?s1 (buf_y qI + k)
          = dft 1 (unat (nfft qI)) (\<lambda>n. ?s1 (buf_x qI + n)) k"
    using LI FI DI [unfolded sI] _ twI1 okI1 k' by (rule execute_dft) simp
  also have "\<dots> = dft 1 ?N (dft (- 1) ?N ?f) k"
    unfolding size chain using A by (intro dft_cong) simp
  also have "\<dots> = of_nat ?N * ?f k" using k by (rule dft_roundtrip)
  finally show ?thesis .
qed

section \<open>Two plans built one after the other\<close>

text \<open>
  The instance for the round trip: a forward and an inverse plan of size 12, built one
  after the other on the same heap, the second reading the output of the first.
\<close>

lemma ref_build_heap:
  assumes "create_plan_mixed_radix ref_env n x y dir fl h = Inr (q, h')"
  shows "brk h' = brk h + 2 * t_len q + 2 * unat n"
    and "\<And>a. a \<notin> blk (twiddle q) (unat n) \<Longrightarrow> cells h' a = cells h a"
proof -
  have nz: "find_first_factor n 2 \<noteq> 0" using assms by (rule create_plan_Inr_fields)
  with assms show "brk h' = brk h + 2 * t_len q + 2 * unat n"
    by (auto simp: create_plan_mixed_radix_def Let_def ref_env_def direct_create_plan_def
        malloc_TC_def malloc_struct_def t_len_def split: prod.splits)
  fix a assume a: "a \<notin> blk (twiddle q) (unat n)"
  have "\<forall>a. a \<notin> blk tw (unat n) \<longrightarrow>
      for_loop 0 n (\<lambda>i c. c(tw + unat i := g i)) c0 a = (c0::store) a" for tw g c0
    by (rule for_loop_frame) (auto simp: blk_def uint_less_unat)
  with assms nz a show "cells h' a = cells h a"
    by (auto simp: create_plan_mixed_radix_def Let_def ref_env_def direct_create_plan_def
        malloc_TC_def malloc_struct_def split: prod.splits)
qed

lemma build12:
  "\<exists>q h'. create_plan_mixed_radix ref_env 12 x y dir 0 h = Inr (q, h') \<and>
      nfft q = 12 \<and> mr_P q = 6 \<and> mr_Q q = 2 \<and> buf_x q = x \<and> buf_y q = y \<and>
      direction q = (if dir = 1 then 1 else - 1)"
proof -
  have f: "find_first_factor 12 2 = 2" by (simp add: find_first_factor.simps)
  then have "find_first_factor 12 2 \<noteq> 0" by simp
  from create_plan_succeeds [OF this, of ref_env x y dir 0 h] f
  show ?thesis by (auto simp: ref_env_def)
qed

theorem forward_then_inverse_scales_by_N_witness:
  "\<exists>qF h1 qI h2.
     create_plan_mixed_radix ref_env 12 0 12 1 0 heap0 = Inr (qF, h1) \<and>
     create_plan_mixed_radix ref_env 12 12 24 (- 1) 0 h1 = Inr (qI, h2) \<and>
     direction qF = FFT_FORWARD ref_env \<and> direction qI = FFT_REVERSE ref_env \<and>
     execute_mixed_radix ref_env qI
       (execute_mixed_radix ref_env qF
          (\<lambda>a. if a < 12 then of_nat a + \<i> else cells h2 a)) 24 = 12 * \<i> \<and>
     execute_mixed_radix ref_env qI
       (execute_mixed_radix ref_env qF
          (\<lambda>a. if a < 12 then of_nat a + \<i> else cells h2 a)) 31 = 12 * (7 + \<i>)"
proof -
  from build12 [of 0 12 1 heap0]
  obtain qF h1 where rF: "create_plan_mixed_radix ref_env 12 0 12 1 0 heap0 = Inr (qF, h1)"
    and fF: "nfft qF = 12" "mr_P qF = 6" "mr_Q qF = 2" "buf_x qF = 0" "buf_y qF = 12"
      "direction qF = 1"
    by auto
  from build12 [of 12 24 "- 1" h1]
  obtain qI h2 where rI: "create_plan_mixed_radix ref_env 12 12 24 (- 1) 0 h1 = Inr (qI, h2)"
    and fI: "nfft qI = 12" "mr_P qI = 6" "mr_Q qI = 2" "buf_x qI = 12" "buf_y qI = 24"
      "direction qI = - 1"
    by auto
  let ?s = "\<lambda>a. if a < 12 then of_nat a + \<i> else cells h2 a"
  have tlF: "t_len qF = 6" and tlI: "t_len qI = 6" using fF fI by (simp_all add: t_len_def)
  note gF = ref_build [OF rF] ref_build_heap [OF rF]
  note gI = ref_build [OF rI] ref_build_heap [OF rI]
  have b0: "brk heap0 = 100" by (simp add: heap0_def)
  have b1: "brk h1 = 136" using gF(6) tlF b0 by simp
  have aF: "mr_t0 qF = 100" "mr_t1 qF = 106" "mr_x qF = 112" "twiddle qF = 124"
    using gF(1-4) tlF b0 by simp_all
  have aI: "mr_t0 qI = 136" "mr_t1 qI = 142" "mr_x qI = 148" "twiddle qI = 160"
    using gI(1-4) tlI b1 by simp_all
  have dirF: "direction qF = FFT_FORWARD ref_env" using fF by (simp add: ref_env_def)
  have dirI: "direction qI \<noteq> FFT_FORWARD ref_env" using fI by (simp add: ref_env_def)
  have dirI': "direction qI = FFT_REVERSE ref_env" using fI by (simp add: ref_env_def)
  have LF: "plan_layout qF {}" using rF by (rule ref_build_layout) (simp add: b0)
  have LI: "plan_layout qI {}" using rI by (rule ref_build_layout) (simp add: b1)
  note FF = ref_build_frame [OF rF] and FI = ref_build_frame [OF rI]
  note DF = ref_build_dft [OF rF] and DI = ref_build_dft [OF rI]
  have sep: "(blk (twiddle qI) (unat (nfft qI)) \<union> {}) \<inter> exec_writes qF {} = {}"
    by (auto simp: exec_writes_def aF aI fF fI tlF blk_def)
  have twI: "twiddle_ok qI (plan_sign ref_env qI) ?s"
    using create_plan_twiddle_ok [OF rI exact_arith_ref_env] by (simp add: twiddle_ok_def aI)
  have twF: "twiddle_ok qF (plan_sign ref_env qF) ?s"
    unfolding twiddle_ok_def
  proof (intro allI impI)
    fix i assume i: "i < unat (nfft qF)"
    then have "twiddle qF + i \<notin> blk (twiddle qI) (unat (12::uint))"
      by (simp add: aF aI fF blk_def)
    then have "cells h2 (twiddle qF + i) = cells h1 (twiddle qF + i)" by (rule gI(7))
    moreover have "?s (twiddle qF + i) = cells h2 (twiddle qF + i)" by (simp add: aF)
    ultimately show "?s (twiddle qF + i) =
        exp (\<i> * complex_of_real (plan_sign ref_env qF) * 2 * complex_of_real pi * of_nat i
               / of_nat (unat (nfft qF)))"
      using create_plan_twiddle_ok [OF rF exact_arith_ref_env] i by (simp only: twiddle_ok_def)
  qed
  have size: "nfft qI = nfft qF" and chain: "buf_x qI = buf_y qF" using fF fI by simp_all
  note t = forward_then_inverse_scales_by_N
    [OF LF FF DF LI FI DI dirF dirI size chain sep twF TrueI twI TrueI]
  have "(0::nat) < unat (nfft qF)" "(7::nat) < unat (nfft qF)" using fF by simp_all
  from t [OF this(1)] t [OF this(2)]
  have "execute_mixed_radix ref_env qI (execute_mixed_radix ref_env qF ?s) 24 = 12 * \<i>"
    and "execute_mixed_radix ref_env qI (execute_mixed_radix ref_env qF ?s) 31 = 12 * (7 + \<i>)"
    by (simp_all add: fF fI)
  with rF rI dirF dirI' show ?thesis by blast
qed

section \<open>The executor as a sub-plan\<close>

text \<open>
  What is assumed of the sub-plans is what the executor itself provides: a plan with a
  sound layout and correct sub-plans meets \<open>subplan_frame\<close> and \<open>subplan_dft\<close> on its own
  buffers, with "twiddle table filled and sub-plans intact" as its invariant. So the
  assumptions compose down a chain of factors.
\<close>

lemma execute_keeps_intact:
  assumes L: "plan_layout q priv" and F: "subplans_frame env q priv"
    and D: "subplans_dft env q d priv intact" and ok: "intact s"
  shows "intact (execute_mixed_radix env q s)"
proof -
  from L have Xp: "blk (mr_x q) (unat (nfft q)) \<inter> priv = {}" by (simp add: plan_layout_def)
  from D have loc: "\<And>s s'. intact s \<Longrightarrow> (\<forall>a\<in>priv. s' a = s a) \<Longrightarrow> intact s'"
    by (simp add: subplans_dft_def) blast
  let ?s1 = "memmove (mr_x q) (buf_x q) (unat (nfft q)) s"
  have "intact ?s1"
  proof (rule loc [OF ok], rule ballI)
    fix a assume "a \<in> priv"
    with Xp have "a \<notin> blk (mr_x q) (unat (nfft q))" by (rule notin_disjoint')
    then show "?s1 a = s a" by (rule memmove_frame)
  qed
  from pass2_effect(2) [OF L F D pass1_effect(2) [OF L F D this]]
  show ?thesis by (simp add: execute_mixed_radix_def Let_def)
qed

lemma execute_is_subplan:
  assumes L: "plan_layout q priv" and F: "subplans_frame env q priv"
    and D: "subplans_dft env q d priv intact" and d: "d = 1 \<or> d = - 1"
  shows "subplan_frame (execute_mixed_radix env q) (unat (nfft q)) (buf_x q) (buf_y q)
           (blk (mr_x q) (unat (nfft q)) \<union> blk (mr_t0 q) (t_len q) \<union> blk (mr_t1 q) (t_len q)
              \<union> priv)"
    and "subplan_dft (execute_mixed_radix env q) d (unat (nfft q)) (buf_x q) (buf_y q)
           (\<lambda>s. twiddle_ok q d s \<and> intact s)"
proof -
  from L have PQ: "unat (mr_P q) * unat (mr_Q q) = unat (nfft q)"
    and W: "blk (twiddle q) (unat (nfft q)) \<inter> exec_writes q priv = {}"
    by (auto simp: plan_layout_def exec_writes_def)
  show "subplan_frame (execute_mixed_radix env q) (unat (nfft q)) (buf_x q) (buf_y q)
           (blk (mr_x q) (unat (nfft q)) \<union> blk (mr_t0 q) (t_len q) \<union> blk (mr_t1 q) (t_len q)
              \<union> priv)"
    unfolding subplan_frame_def
  proof (intro allI impI)
    fix s a
    assume "a \<notin> blk (mr_x q) (unat (nfft q)) \<union> blk (mr_t0 q) (t_len q)
                \<union> blk (mr_t1 q) (t_len q) \<union> priv \<union> blk (buf_y q) (unat (nfft q))
                \<union> blk (buf_x q) (unat (nfft q))"
    then have "a \<notin> exec_writes q priv" by (simp add: exec_writes_def)
    with PQ F show "execute_mixed_radix env q s a = s a" by (rule execute_frame_aux)
  qed
  show "subplan_dft (execute_mixed_radix env q) d (unat (nfft q)) (buf_x q) (buf_y q)
           (\<lambda>s. twiddle_ok q d s \<and> intact s)"
    unfolding subplan_dft_def
  proof (intro allI impI conjI)
    fix s assume s: "twiddle_ok q d s \<and> intact s"
    show "intact (execute_mixed_radix env q s)"
      using L F D s by (blast intro: execute_keeps_intact)
    show "twiddle_ok q d (execute_mixed_radix env q s)"
      unfolding twiddle_ok_def
    proof (intro allI impI)
      fix i assume i: "i < unat (nfft q)"
      then have "twiddle q + i \<in> blk (twiddle q) (unat (nfft q))" by (rule blk_offset)
      with W have "twiddle q + i \<notin> exec_writes q priv" by blast
      with PQ F have "execute_mixed_radix env q s (twiddle q + i) = s (twiddle q + i)"
        by (rule execute_frame_aux)
      with s i show "execute_mixed_radix env q s (twiddle q + i) =
          exp (\<i> * complex_of_real d * 2 * complex_of_real pi * of_nat i / of_nat (unat (nfft q)))"
        by (simp add: twiddle_ok_def)
    qed
  next
    fix s k assume s: "twiddle_ok q d s \<and> intact s" and k: "k < unat (nfft q)"
    from s have "twiddle_ok q d s" "intact s" by simp_all
    with L F D d show "execute_mixed_radix env q s (buf_y q + k)
        = dft d (unat (nfft q)) (\<lambda>j. s (buf_x q + j)) k"
      using k by (rule execute_dft)
  qed
qed

section \<open>Building, then destroying\<close>

text \<open>
  In the reference environment, destroying a plan right after building it gives back
  the live blocks the heap had before the build.
\<close>

lemma ref_build_destroy:
  assumes r: "create_plan_mixed_radix ref_env n x y dir fl h = Inr (q, h')"
  shows "live (destroy_plan_mixed_radix ref_env q h') = live h"
proof -
  note f = create_plan_Inr_fields [OF r]
  note p = first_factor_props [OF f(1)]
  have Q: "2 \<le> unat (mr_Q q)" using p(1) f(6) by simp
  then have tl: "0 < t_len q" using t_len_ge(2) [of q] by simp
  have n: "0 < unat n" using p(2) by simp
  have l: "live h' = [TC_array (twiddle q) (unat n), Subplan_table 2,
                      TC_array (mr_x q) (unat n), TC_array (mr_t1 q) (t_len q),
                      TC_array (mr_t0 q) (t_len q), Plan_struct] @ live h"
    and ns: "num_subplans q = 2"
    using r f(1)
    by (auto simp: create_plan_mixed_radix_def Let_def ref_env_def direct_create_plan_def
        malloc_TC_def malloc_struct_def t_len_def split: prod.splits)
  note a = ref_build(1-4) [OF r]
  show ?thesis
    using tl n
    by (simp add: destroy_plan_mixed_radix_def Let_def ref_env_def free_struct_def
        free_TC_def l ns a)
qed

section \<open>Executing a plan made by the builder\<close>

text \<open>
  The two halves put together: a plan made by the builder in exact arithmetic, run in
  any store that still holds its twiddle table, leaves in the caller's output buffer the direct transform, of
  the sign of its direction, of the caller's input buffer.
\<close>

lemma built_plan_execute_dft:
  assumes r: "create_plan_mixed_radix env n x y dir fl h = Inr (q, h')"
    and ex: "exact_arith env"
    and g: "factory_grows env" and y: "y + unat n \<le> brk h"
    and F: "subplans_frame env q (blk (mr_x q + unat n) (twiddle q - (mr_x q + unat n)))"
    and D: "subplans_dft env q (plan_sign env q)
              (blk (mr_x q + unat n) (twiddle q - (mr_x q + unat n))) intact"
    and tw: "\<forall>i<unat n. s (twiddle q + i) = cells h' (twiddle q + i)"
    and ok: "intact s" and m: "m < unat n"
  shows "execute_mixed_radix env q s (y + m)
           = dft (plan_sign env q) (unat n) (\<lambda>j. s (x + j)) m"
proof -
  note f = create_plan_Inr_fields [OF r]
  have L: "plan_layout q (blk (mr_x q + unat n) (twiddle q - (mr_x q + unat n)))"
    using r g y by (rule create_plan_layout)
  have T: "twiddle_ok q (plan_sign env q) s"
    using create_plan_twiddle_ok [OF r ex] tw by (simp add: twiddle_ok_def f(2))
  have d: "plan_sign env q = 1 \<or> plan_sign env q = - 1" by (simp add: plan_sign_def)
  from m have "m < unat (nfft q)" by (simp add: f(2))
  from execute_dft [OF L F D d T ok this] show ?thesis by (simp add: f)
qed

end
